theory Spec2Isabelle
  imports Main "HOL-Library.Word" "HOL-Library.AList"
begin

unbundle bit_operations_syntax

section \<open>Code space\<close>

text \<open>
  \<^verbatim>\<open>using CodeType = std::uint16_t;\<close> and the C++ \<^verbatim>\<open>char\<close>, taken as the raw
  byte it occupies. Whether \<^verbatim>\<open>char\<close> is signed and in which order the two bytes of a
  code are stored are properties of the platform the program is compiled for; both are
  parameters of the model.
\<close>

type_synonym code = "16 word"
type_synonym byte = "8 word"

record platform =
  char_signed :: bool
  big_endian :: bool

text \<open>\<^verbatim>\<open>globals::dms\<close>, the largest value of \<^verbatim>\<open>CodeType\<close>.\<close>

definition dms :: code where
  "dms = 65535"

text \<open>\<^verbatim>\<open>std::numeric_limits<char>::min()\<close> and \<^verbatim>\<open>max()\<close>, as \<^verbatim>\<open>long int\<close>.\<close>

definition minc :: "platform \<Rightarrow> int" where
  "minc p = (if char_signed p then - 128 else 0)"

definition maxc :: "platform \<Rightarrow> int" where
  "maxc p = (if char_signed p then 127 else 255)"

text \<open>\<^verbatim>\<open>static_cast<char> (c)\<close> for a \<^verbatim>\<open>long int\<close> within the range of \<^verbatim>\<open>char\<close>.\<close>

definition to_char :: "int \<Rightarrow> byte" where
  "to_char c = word_of_int c"

text \<open>
  What ends a run abnormally: the two \<^verbatim>\<open>std::runtime_error\<close>s of \<^verbatim>\<open>decompress\<close>,
  \<^verbatim>\<open>std::out_of_range\<close> from \<^verbatim>\<open>at\<close>, a failed allocation in \<^verbatim>\<open>push_back\<close>
  (\<^verbatim>\<open>std::bad_alloc\<close>), and \<^verbatim>\<open>front()\<close> on an empty vector, whose behaviour is
  undefined.
\<close>

datatype error = InvalidCode | CorruptStream | OutOfRange | BadAlloc | EmptyFront

text \<open>
  \<^verbatim>\<open>os.write(reinterpret_cast<const char *> (&i), sizeof (CodeType))\<close>: the two bytes
  of the code in the order of the host, and the reading of two bytes back into a code.
\<close>

definition code_bytes :: "platform \<Rightarrow> code \<Rightarrow> byte list" where
  "code_bytes p k =
     (if big_endian p then [ucast (drop_bit 8 k), ucast k]
      else [ucast k, ucast (drop_bit 8 k)])"

definition bytes_code :: "platform \<Rightarrow> byte \<Rightarrow> byte \<Rightarrow> code" where
  "bytes_code p b1 b2 =
     (if big_endian p then push_bit 8 (ucast b1) OR ucast b2
      else push_bit 8 (ucast b2) OR ucast b1)"

section \<open>The encoder\<close>

text \<open>
  \<^verbatim>\<open>std::map<std::pair<CodeType, char>, CodeType>\<close> as an association list with
  unique keys: \<^verbatim>\<open>dictionary[key] = v\<close> is \<^const>\<open>AList.update\<close> (overwrite in place, or
  add), \<^verbatim>\<open>size()\<close> is the length, \<^verbatim>\<open>count(key) == 0\<close> is a failed lookup and
  \<^verbatim>\<open>at(key)\<close> throws \<^verbatim>\<open>std::out_of_range\<close> where the lookup fails.
\<close>

type_synonym enc_dict = "((code \<times> byte) \<times> code) list"

definition enc_reset_dictionary :: "platform \<Rightarrow> enc_dict" where
  "enc_reset_dictionary p =
     fold (\<lambda>c d. AList.update (dms, to_char c) (of_nat (length d)) d) [minc p..maxc p] []"

definition enc_at :: "enc_dict \<Rightarrow> code \<times> byte \<Rightarrow> error + code" where
  "enc_at d key = (case map_of d key of None \<Rightarrow> Inl OutOfRange | Some v \<Rightarrow> Inr v)"

text \<open>
  One iteration of the \<^verbatim>\<open>while (is.get(c))\<close> loop of \<^verbatim>\<open>compress\<close>, on the state
  (dictionary, \<^verbatim>\<open>i\<close>, bytes written to \<^verbatim>\<open>os\<close>).
\<close>

type_synonym enc_state = "enc_dict \<times> code \<times> byte list"

definition compress_step :: "platform \<Rightarrow> enc_state \<Rightarrow> byte \<Rightarrow> error + enc_state" where
  "compress_step p st c =
     (case st of (d0, i, os) \<Rightarrow>
        let d = (if length d0 = unat dms then enc_reset_dictionary p else d0) in
        if map_of d (i, c) = None then
          let d' = AList.update (i, c) (of_nat (length d)) d;
              os' = os @ code_bytes p i
          in (case enc_at d' (dms, c) of Inl e \<Rightarrow> Inl e | Inr j \<Rightarrow> Inr (d', j, os'))
        else
          (case enc_at d (i, c) of Inl e \<Rightarrow> Inl e | Inr j \<Rightarrow> Inr (d, j, os)))"

fun compress_loop :: "platform \<Rightarrow> enc_state \<Rightarrow> byte list \<Rightarrow> error + enc_state" where
  "compress_loop p st [] = Inr st"
| "compress_loop p st (c # cs) =
     (case compress_step p st c of Inl e \<Rightarrow> Inl e | Inr st' \<Rightarrow> compress_loop p st' cs)"

text \<open>The write after the loop: \<^verbatim>\<open>if (i != globals::dms) os.write(...)\<close>.\<close>

definition compress_flush :: "platform \<Rightarrow> enc_state \<Rightarrow> byte list" where
  "compress_flush p st =
     (case st of (d, i, os) \<Rightarrow> if i \<noteq> dms then os @ code_bytes p i else os)"

definition compress :: "platform \<Rightarrow> byte list \<Rightarrow> error + byte list" where
  "compress p input =
     (case compress_loop p (enc_reset_dictionary p, dms, []) input of
        Inl e \<Rightarrow> Inl e
      | Inr st \<Rightarrow> Inr (compress_flush p st))"

section \<open>The decoder\<close>

text \<open>
  \<^verbatim>\<open>std::vector<std::pair<CodeType, char>>\<close> as a list; \<^verbatim>\<open>at(k)\<close> throws
  \<^verbatim>\<open>std::out_of_range\<close> for an index that is not below the size.
\<close>

type_synonym dec_dict = "(code \<times> byte) list"

definition dec_reset_dictionary :: "platform \<Rightarrow> dec_dict" where
  "dec_reset_dictionary p = fold (\<lambda>c d. d @ [(dms, to_char c)]) [minc p..maxc p] []"

text \<open>
  A computation of the decoder throws (\<open>Some (Inl e)\<close>) or returns
  (\<open>Some (Inr x)\<close>); \<open>None\<close> is the value of a computation that does not return,
  which is kept apart for the loop of \<^verbatim>\<open>rebuild_string\<close> on an unbounded vector. What
  has been written to \<^verbatim>\<open>os\<close> before an exception is not part of the result, here and
  in the encoder.
\<close>

type_synonym 'a result = "(error + 'a) option"

definition bind_result :: "'a result \<Rightarrow> ('a \<Rightarrow> 'b result) \<Rightarrow> 'b result" where
  "bind_result r f =
     (case r of None \<Rightarrow> None | Some (Inl e) \<Rightarrow> Some (Inl e) | Some (Inr x) \<Rightarrow> f x)"

text \<open>
  The loop of \<^verbatim>\<open>rebuild_string\<close>: \<^verbatim>\<open>s.push_back(dictionary.at(k).second);
  k = dictionary.at(k).first;\<close> while \<^verbatim>\<open>k != globals::dms\<close>, on a vector that can
  grow without bound. The loop has no bound of its own: on a chain of prefixes that
  comes back to an entry it visited it does not reach the sentinel, and its value is
  \<open>None\<close>.
\<close>

partial_function (option) rebuild_loop :: "dec_dict \<Rightarrow> code \<Rightarrow> byte list \<Rightarrow> (error + byte list) option" where
  "rebuild_loop d k s =
     (if k \<noteq> dms then
        (if unat k < length d
         then rebuild_loop d (fst (d ! unat k)) (s @ [snd (d ! unat k)])
         else Some (Inl OutOfRange))
      else Some (Inr s))"

declare rebuild_loop.simps [code]

text \<open>
  \<^verbatim>\<open>rebuild_string\<close>: the loop, then \<^verbatim>\<open>std::reverse\<close>. A real vector cannot grow
  without bound: where the loop does not reach the sentinel, \<^verbatim>\<open>push_back\<close> in the end
  fails to allocate and throws.
\<close>

definition rebuild_string :: "dec_dict \<Rightarrow> code \<Rightarrow> byte list result" where
  "rebuild_string d k =
     (case rebuild_loop d k [] of
        None \<Rightarrow> Some (Inl BadAlloc)
      | Some (Inl e) \<Rightarrow> Some (Inl e)
      | Some (Inr s) \<Rightarrow> Some (Inr (rev s)))"

text \<open>\<^verbatim>\<open>front()\<close> of a vector; on an empty vector the behaviour is undefined.\<close>

definition front :: "byte list \<Rightarrow> byte result" where
  "front s = (case s of [] \<Rightarrow> Some (Inl EmptyFront) | b # _ \<Rightarrow> Some (Inr b))"

text \<open>
  One iteration of the \<^verbatim>\<open>while (is.read(...))\<close> loop of \<^verbatim>\<open>decompress\<close>, on the
  state (dictionary, \<^verbatim>\<open>i\<close>, bytes written to \<^verbatim>\<open>os\<close>), for the code \<^verbatim>\<open>k\<close> read.
\<close>

type_synonym dec_state = "dec_dict \<times> code \<times> byte list"

definition decompress_step :: "platform \<Rightarrow> dec_state \<Rightarrow> code \<Rightarrow> dec_state result" where
  "decompress_step p st k =
     (case st of (d0, i, os) \<Rightarrow>
        let d = (if length d0 = unat dms then dec_reset_dictionary p else d0) in
        if unat k > length d then Some (Inl InvalidCode)
        else if unat k = length d then
          bind_result (rebuild_string d i) (\<lambda>si.
          bind_result (front si) (\<lambda>b.
          let d' = d @ [(i, b)] in
          bind_result (rebuild_string d' k) (\<lambda>s.
          bind_result (front s) (\<lambda>_.
          Some (Inr (d', k, os @ s))))))
        else
          bind_result (rebuild_string d k) (\<lambda>s.
          if i \<noteq> dms then
            bind_result (front s) (\<lambda>b.
            let d' = d @ [(i, b)] in
            bind_result (front s) (\<lambda>_.
            Some (Inr (d', k, os @ s))))
          else
            bind_result (front s) (\<lambda>_.
            Some (Inr (d, k, os @ s)))))"

text \<open>
  The loop reads two bytes at a time and stops at the first read that cannot be
  completed; it hands back the state and \<^verbatim>\<open>is.gcount()\<close>, the number of bytes that
  last read did get.
\<close>

fun decompress_loop :: "platform \<Rightarrow> dec_state \<Rightarrow> byte list \<Rightarrow> (dec_state \<times> nat) result" where
  "decompress_loop p st (b1 # b2 # bs) =
     bind_result (decompress_step p st (bytes_code p b1 b2)) (\<lambda>st'. decompress_loop p st' bs)"
| "decompress_loop p st bs = Some (Inr (st, length bs))"

text \<open>
  After the loop: \<^verbatim>\<open>if (!is.eof() || is.gcount() != 0) throw ...\<close>. The input is a
  finite byte sequence, so the failed read did reach its end.
\<close>

definition decompress :: "platform \<Rightarrow> byte list \<Rightarrow> byte list result" where
  "decompress p input =
     bind_result (decompress_loop p (dec_reset_dictionary p, dms, []) input) (\<lambda>(st, gcount).
     if gcount \<noteq> 0 then Some (Inl CorruptStream)
     else (case st of (d, i, os) \<Rightarrow> Some (Inr os)))"

section \<open>Observing the resets\<close>

text \<open>
  Where the encoder resets, read off the run of its loop: for every iteration that
  starts with a full dictionary, the number of bytes written to \<^verbatim>\<open>os\<close> until then,
  and the dictionary that is cleared.
\<close>

fun compress_resets :: "platform \<Rightarrow> enc_state \<Rightarrow> byte list \<Rightarrow> (nat \<times> enc_dict) list" where
  "compress_resets p st [] = []"
| "compress_resets p st (c # cs) =
     (case st of (d, i, os) \<Rightarrow> if length d = unat dms then [(length os, d)] else []) @
     (case compress_step p st c of Inl e \<Rightarrow> [] | Inr st' \<Rightarrow> compress_resets p st' cs)"

text \<open>
  Where the decoder resets: for every iteration of its loop that starts with a full
  dictionary, the number \<open>n\<close> of bytes read from \<^verbatim>\<open>is\<close> until then, and the dictionary
  that is cleared.
\<close>

fun decompress_resets :: "platform \<Rightarrow> dec_state \<Rightarrow> nat \<Rightarrow> byte list \<Rightarrow> (nat \<times> dec_dict) list" where
  "decompress_resets p st n (b1 # b2 # bs) =
     (case st of (d, i, os) \<Rightarrow> if length d = unat dms then [(n, d)] else []) @
     (case decompress_step p st (bytes_code p b1 b2) of
        Some (Inr st') \<Rightarrow> decompress_resets p st' (n + 2) bs
      | _ \<Rightarrow> [])"
| "decompress_resets p st n bs = []"

section \<open>Notions for the proofs\<close>

text \<open>
  The base alphabet in closed form. The loop of \<^verbatim>\<open>reset_dictionary\<close> runs through the
  values of \<^verbatim>\<open>char\<close> in ascending order, so the \<open>n\<close>-th entry holds the byte
  \<open>char_offset p + n\<close>: where \<^verbatim>\<open>char\<close> is signed the first value is \<open>-128\<close>, the
  byte \<open>0x80\<close>.
\<close>

definition char_offset :: "platform \<Rightarrow> byte" where
  "char_offset p = (if char_signed p then 128 else 0)"

definition base_char :: "platform \<Rightarrow> nat \<Rightarrow> byte" where
  "base_char p n = char_offset p + of_nat n"

text \<open>The code the base alphabet gives to a byte.\<close>

definition base_code :: "platform \<Rightarrow> byte \<Rightarrow> code" where
  "base_code p c = ucast (c - char_offset p)"

text \<open>
  The encoder's map that belongs to a decoder array: every entry of the array as a key,
  with its index as the code, in the order of insertion.
\<close>

definition enc_of :: "dec_dict \<Rightarrow> enc_dict" where
  "enc_of D = zip D (map of_nat [0..<length D])"

text \<open>
  \<open>spells d k s\<close>: the walk of \<^verbatim>\<open>rebuild_string\<close> from the code \<open>k\<close> through the
  array \<open>d\<close> reaches the sentinel, and \<open>s\<close> is the string it has collected, first byte
  first.
\<close>

inductive spells :: "dec_dict \<Rightarrow> code \<Rightarrow> byte list \<Rightarrow> bool" where
  spells_dms: "spells d dms []"
| spells_entry: "k \<noteq> dms \<Longrightarrow> unat k < length d \<Longrightarrow> spells d (fst (d ! unat k)) s
     \<Longrightarrow> spells d k (s @ [snd (d ! unat k)])"

text \<open>
  An array within the capacity in which the prefix of every entry is the sentinel or an
  earlier entry.
\<close>

definition wf_dict :: "dec_dict \<Rightarrow> bool" where
  "wf_dict D \<longleftrightarrow> length D \<le> 65535 \<and>
     (\<forall>n < length D. fst (D ! n) = dms \<or> unat (fst (D ! n)) < n)"

text \<open>The test at the head of the decoder's loop body.\<close>

definition reset_if_full :: "platform \<Rightarrow> dec_dict \<Rightarrow> dec_dict" where
  "reset_if_full p d = (if length d = unat dms then dec_reset_dictionary p else d)"

text \<open>
  The encoder holds the map of the array \<open>D\<close> and the pending match \<open>i\<close>, whose string
  is \<open>w\<close>; the decoder, having read every code written so far, holds the array \<open>dd\<close> and
  the last code \<open>j\<close>. The decoder is one entry behind: the last entry of \<open>D\<close> is the one
  the decoder will add when it reads the next code.
\<close>

definition in_sync :: "platform \<Rightarrow> dec_dict \<Rightarrow> code \<Rightarrow> byte list \<Rightarrow> dec_dict \<Rightarrow> code \<Rightarrow> bool" where
  "in_sync p D i w dd j \<longleftrightarrow>
     wf_dict D \<and> distinct D \<and> (\<exists>rest. D = dec_reset_dictionary p @ rest) \<and>
     unat i < length D \<and> spells D i w \<and>
     (length D = 65535 \<longrightarrow> unat i < 256) \<and>
     (if j = dms then D = dec_reset_dictionary p \<and> dd = D
      else D = reset_if_full p dd @ [(j, hd w)])"

section \<open>Lemmas\<close>

lemma unat_dms: "unat dms = 65535"
  by (simp add: dms_def)

lemma unat_of_nat_code: "n < 65536 \<Longrightarrow> unat (of_nat n :: code) = n"
  by (simp add: unat_of_nat)

lemma bytes_code_code_bytes: "code_bytes p k = [b1, b2] \<Longrightarrow> bytes_code p b1 b2 = k"
  apply (auto simp: code_bytes_def bytes_code_def split: if_splits)
   apply (rule bit_word_eqI; auto simp: bit_simps)+
  done

lemma length_code_bytes: "length (code_bytes p k) = 2"
  by (simp add: code_bytes_def)

lemma upto_as_upt: "[a..b] = map (\<lambda>n. a + int n) [0..<nat (b - a + 1)]"
proof (induction "nat (b - a + 1)" arbitrary: a)
  case 0
  then show ?case by simp
next
  case (Suc n)
  then have le: "a \<le> b" and n: "n = nat (b - (a + 1) + 1)" by linarith+
  have "[a..b] = a # [a + 1..b]" using le by (simp add: upto_rec1)
  also have "[a + 1..b] = map (\<lambda>k. a + 1 + int k) [0..<n]"
    using Suc.hyps(1) [OF n] n by simp
  also have "a # map (\<lambda>k. a + 1 + int k) [0..<n] = map (\<lambda>k. a + int k) [0..<Suc n]"
    by (simp add: upt_conv_Cons map_Suc_upt [symmetric] del: upt_Suc)
  finally show ?case using Suc.hyps(2) by simp
qed

subsection \<open>The base alphabet\<close>

lemma char_range: "map to_char [minc p..maxc p] = map (base_char p) [0..<256]"
  by (simp add: upto_as_upt minc_def maxc_def to_char_def base_char_def char_offset_def o_def)

lemma fold_push_back: "fold (\<lambda>c d. d @ [f c]) xs acc = acc @ map f xs"
  by (induction xs arbitrary: acc) simp_all

lemma dec_reset_dictionary_eq:
  "dec_reset_dictionary p = map (\<lambda>n. (dms, base_char p n)) [0..<256]"
proof -
  have "dec_reset_dictionary p = map (\<lambda>c. (dms, c)) (map to_char [minc p..maxc p])"
    unfolding dec_reset_dictionary_def fold_push_back by (simp add: o_def)
  then show ?thesis unfolding char_range by (simp add: o_def)
qed

lemma length_dec_reset [simp]: "length (dec_reset_dictionary p) = 256"
  by (simp add: dec_reset_dictionary_eq)

lemma nth_dec_reset: "n < 256 \<Longrightarrow> dec_reset_dictionary p ! n = (dms, base_char p n)"
  by (simp add: dec_reset_dictionary_eq del: upt_Suc)

lemma unat_byte_less: "unat (x :: byte) < 256"
  using unsigned_less [of x, where 'a = nat] by simp

lemma unat_ucast_byte: "unat (ucast (x :: byte) :: code) = unat x"
proof -
  have "unat x < 2 ^ 16" using unat_byte_less [of x] by simp
  then show ?thesis by (simp add: unsigned_ucast_eq take_bit_nat_eq_self)
qed

lemma unat_base_code: "unat (base_code p c) < 256"
  by (simp add: base_code_def unat_ucast_byte unat_byte_less)

lemma base_char_base_code: "base_char p (unat (base_code p c)) = c"
  by (simp add: base_code_def unat_ucast_byte base_char_def)

lemma base_char_inj: "n < 256 \<Longrightarrow> m < 256 \<Longrightarrow> base_char p n = base_char p m \<Longrightarrow> n = m"
proof -
  assume n: "n < 256" and m: "m < 256" and eq: "base_char p n = base_char p m"
  from eq have "(of_nat n :: byte) = of_nat m" by (simp add: base_char_def)
  then have "unat (of_nat n :: byte) = unat (of_nat m :: byte)" by simp
  then show "n = m" using n m by (simp add: unat_of_nat)
qed

lemma distinct_dec_reset: "distinct (dec_reset_dictionary p)"
  unfolding dec_reset_dictionary_eq distinct_map
  by (auto simp: inj_on_def dest: base_char_inj simp del: upt_Suc)

lemma dec_reset_mem: "(j, c) \<in> set (dec_reset_dictionary p) \<longleftrightarrow> j = dms"
proof
  assume "(j, c) \<in> set (dec_reset_dictionary p)"
  then show "j = dms" by (auto simp: dec_reset_dictionary_eq simp del: upt_Suc)
next
  assume "j = dms"
  moreover have "dec_reset_dictionary p ! unat (base_code p c) = (dms, c)"
    by (simp add: nth_dec_reset unat_base_code base_char_base_code)
  moreover have "unat (base_code p c) < length (dec_reset_dictionary p)"
    by (simp add: unat_base_code)
  ultimately show "(j, c) \<in> set (dec_reset_dictionary p)"
    by (metis nth_mem)
qed

subsection \<open>The encoder's map as the inverse of the decoder's array\<close>

lemma length_enc_of [simp]: "length (enc_of D) = length D"
  by (simp add: enc_of_def)

lemma enc_of_Nil [simp]: "enc_of [] = []"
  by (simp add: enc_of_def)

lemma enc_of_snoc: "enc_of (D @ [e]) = enc_of D @ [(e, of_nat (length D))]"
  by (simp add: enc_of_def)

lemma map_fst_enc_of [simp]: "map fst (enc_of D) = D"
  by (simp add: enc_of_def)

lemma map_of_enc_of_None: "map_of (enc_of D) key = None \<longleftrightarrow> key \<notin> set D"
  by (simp add: enc_of_def map_of_zip_is_None)

lemma map_of_enc_of_nth:
  "distinct D \<Longrightarrow> n < length D \<Longrightarrow> map_of (enc_of D) (D ! n) = Some (of_nat n)"
  using map_of_zip_nth [of D "map of_nat [0..<length D]" n] by (simp add: enc_of_def)

lemma update_absent: "k \<notin> fst ` set al \<Longrightarrow> AList.update k v al = al @ [(k, v)]"
  by (induction al) auto

lemma update_enc_of:
  "key \<notin> set D \<Longrightarrow> AList.update key (of_nat (length (enc_of D))) (enc_of D) = enc_of (D @ [key])"
proof -
  assume "key \<notin> set D"
  then have "key \<notin> fst ` set (enc_of D)"
    using map_fst_enc_of [of D] by (metis set_map)
  then show ?thesis by (simp add: update_absent enc_of_snoc)
qed

lemma fold_update_enc_of:
  "distinct (A @ map g xs) \<Longrightarrow>
   fold (\<lambda>c d. AList.update (g c) (of_nat (length d)) d) xs (enc_of A) = enc_of (A @ map g xs)"
proof (induction xs arbitrary: A)
  case Nil
  then show ?case by simp
next
  case (Cons x xs)
  from Cons.prems have notin: "g x \<notin> set A" and d: "distinct ((A @ [g x]) @ map g xs)"
    by auto
  show ?case using Cons.IH [OF d] update_enc_of [OF notin] by simp
qed

lemma enc_reset_dictionary_eq: "enc_reset_dictionary p = enc_of (dec_reset_dictionary p)"
proof -
  have "dec_reset_dictionary p = [] @ map (\<lambda>c. (dms, to_char c)) [minc p..maxc p]"
    unfolding dec_reset_dictionary_def fold_push_back ..
  moreover from this have "distinct ([] @ map (\<lambda>c. (dms, to_char c)) [minc p..maxc p])"
    using distinct_dec_reset [of p] by simp
  ultimately show ?thesis
    unfolding enc_reset_dictionary_def
    using fold_update_enc_of [of "[]" "\<lambda>c. (dms, to_char c)" "[minc p..maxc p]"] by simp
qed

lemma enc_reset_lookup: "map_of (enc_reset_dictionary p) (dms, c) = Some (base_code p c)"
proof -
  let ?n = "unat (base_code p c)"
  have "map_of (enc_of (dec_reset_dictionary p)) (dec_reset_dictionary p ! ?n) = Some (of_nat ?n)"
    by (rule map_of_enc_of_nth) (simp_all add: distinct_dec_reset unat_base_code)
  then show ?thesis
    by (simp add: enc_reset_dictionary_eq nth_dec_reset unat_base_code base_char_base_code)
qed

subsection \<open>The string of a code\<close>

lemma spells_rebuild_loop: "spells d k s \<Longrightarrow> rebuild_loop d k acc = Some (Inr (acc @ rev s))"
proof (induction arbitrary: acc rule: spells.induct)
  case (spells_dms d)
  show ?case by (subst rebuild_loop.simps) simp
next
  case (spells_entry k d s)
  show ?case
    by (subst rebuild_loop.simps) (simp add: spells_entry.hyps spells_entry.IH)
qed

lemma spells_rebuild_string: "spells d k s \<Longrightarrow> rebuild_string d k = Some (Inr s)"
  by (simp add: rebuild_string_def spells_rebuild_loop)

lemma spells_unique: "spells d k s \<Longrightarrow> spells d k s' \<Longrightarrow> s = s'"
proof -
  assume a: "spells d k s" and b: "spells d k s'"
  have "rebuild_string d k = Some (Inr s)" using a by (rule spells_rebuild_string)
  moreover have "rebuild_string d k = Some (Inr s')" using b by (rule spells_rebuild_string)
  ultimately show "s = s'" by simp
qed

lemma spells_append: "spells d k s \<Longrightarrow> spells (d @ e) k s"
proof (induction rule: spells.induct)
  case (spells_dms d)
  show ?case by (rule spells.spells_dms)
next
  case (spells_entry k d s)
  have "spells (d @ e) k (s @ [snd ((d @ e) ! unat k)])"
    using spells_entry.hyps spells_entry.IH
    by (intro spells.spells_entry) (simp_all add: nth_append)
  then show ?case by (simp add: nth_append spells_entry.hyps)
qed

lemma spells_nonempty: "spells d k s \<Longrightarrow> k \<noteq> dms \<Longrightarrow> s \<noteq> []"
  by (induction rule: spells.induct) simp_all

lemma spells_entryE:
  assumes "spells d k w" and "k \<noteq> dms"
  obtains s where "spells d (fst (d ! unat k)) s" and "w = s @ [snd (d ! unat k)]"
    and "unat k < length d"
  using assms by (cases rule: spells.cases) auto

lemma wf_dict_code_neq_dms: "wf_dict D \<Longrightarrow> unat k < length D \<Longrightarrow> k \<noteq> dms"
  by (auto simp: wf_dict_def unat_dms)

lemma wf_dict_prefix: "wf_dict (d @ e) \<Longrightarrow> wf_dict d"
  unfolding wf_dict_def
proof (intro conjI allI impI)
  assume a: "length (d @ e) \<le> 65535 \<and>
    (\<forall>n<length (d @ e). fst ((d @ e) ! n) = dms \<or> unat (fst ((d @ e) ! n)) < n)"
  then show "length d \<le> 65535" by simp
  fix n assume n: "n < length d"
  then have "n < length (d @ e)" by simp
  with a have "fst ((d @ e) ! n) = dms \<or> unat (fst ((d @ e) ! n)) < n" by blast
  then show "fst (d ! n) = dms \<or> unat (fst (d ! n)) < n" using n by (simp add: nth_append)
qed

lemma wf_dict_snoc:
  "wf_dict D \<Longrightarrow> length D < 65535 \<Longrightarrow> unat j < length D \<Longrightarrow> wf_dict (D @ [(j, c)])"
  by (auto simp: wf_dict_def nth_append)

lemma wf_dict_last: "wf_dict (d @ [(j, c)]) \<Longrightarrow> j \<noteq> dms \<Longrightarrow> unat j < length d"
proof -
  assume wf: "wf_dict (d @ [(j, c)])" and j: "j \<noteq> dms"
  have "length d < length (d @ [(j, c)])" by simp
  with wf have "fst ((d @ [(j, c)]) ! length d) = dms \<or> unat (fst ((d @ [(j, c)]) ! length d)) < length d"
    unfolding wf_dict_def by blast
  with j show "unat j < length d" by simp
qed

lemma wf_dict_spells: "wf_dict D \<Longrightarrow> unat k < length D \<Longrightarrow> \<exists>s. spells D k s"
proof (induction "unat k" arbitrary: k rule: less_induct)
  case less
  have k: "k \<noteq> dms" using less.prems by (rule wf_dict_code_neq_dms)
  let ?j = "fst (D ! unat k)"
  from less.prems have "?j = dms \<or> unat ?j < unat k" by (simp add: wf_dict_def)
  then have "\<exists>s. spells D ?j s"
  proof
    assume "?j = dms"
    then show ?thesis using spells_dms by metis
  next
    assume lt: "unat ?j < unat k"
    then have "unat ?j < length D" using less.prems(2) by simp
    with less.hyps [OF lt less.prems(1)] show ?thesis .
  qed
  then obtain s where "spells D ?j s" ..
  with k less.prems(2) have "spells D k (s @ [snd (D ! unat k)])" by (rule spells_entry)
  then show ?case ..
qed

lemma wf_dict_dec_reset: "wf_dict (dec_reset_dictionary p)"
  by (simp add: wf_dict_def nth_dec_reset)

lemma spells_base_code: "spells (dec_reset_dictionary p) (base_code p c) [c]"
proof -
  let ?k = "base_code p c"
  have k: "?k \<noteq> dms" using unat_base_code [of p c] by (auto simp: unat_dms)
  have e: "dec_reset_dictionary p ! unat ?k = (dms, c)"
    by (simp add: nth_dec_reset unat_base_code base_char_base_code)
  have "spells (dec_reset_dictionary p) ?k ([] @ [snd (dec_reset_dictionary p ! unat ?k)])"
    by (rule spells_entry) (simp_all add: k unat_base_code e spells_dms)
  then show ?thesis by (simp add: e)
qed

subsection \<open>Single steps, symbolically\<close>

lemma decompress_step_fresh:
  "reset_if_full p d0 = d \<Longrightarrow> unat k = length d \<Longrightarrow>
   rebuild_string d i = Some (Inr (b # bs)) \<Longrightarrow>
   rebuild_string (d @ [(i, b)]) k = Some (Inr (c # cs)) \<Longrightarrow>
   decompress_step p (d0, i, os) k = Some (Inr (d @ [(i, b)], k, os @ c # cs))"
  by (auto simp: decompress_step_def reset_if_full_def bind_result_def front_def)

lemma decompress_step_known:
  "reset_if_full p d0 = d \<Longrightarrow> unat k < length d \<Longrightarrow>
   rebuild_string d k = Some (Inr (b # bs)) \<Longrightarrow> i \<noteq> dms \<Longrightarrow>
   decompress_step p (d0, i, os) k = Some (Inr (d @ [(i, b)], k, os @ b # bs))"
  by (auto simp: decompress_step_def reset_if_full_def bind_result_def front_def)

lemma decompress_step_first:
  "reset_if_full p d0 = d \<Longrightarrow> unat k < length d \<Longrightarrow>
   rebuild_string d k = Some (Inr (b # bs)) \<Longrightarrow>
   decompress_step p (d0, dms, os) k = Some (Inr (d, k, os @ b # bs))"
  by (auto simp: decompress_step_def reset_if_full_def bind_result_def front_def)

lemma compress_step_hit:
  "(if length d0 = unat dms then enc_reset_dictionary p else d0) = d \<Longrightarrow>
   map_of d (i, c) = Some n \<Longrightarrow>
   compress_step p (d0, i, os) c = Inr (d, n, os)"
  by (auto simp: compress_step_def enc_at_def)

lemma compress_step_miss:
  "(if length d0 = unat dms then enc_reset_dictionary p else d0) = d \<Longrightarrow>
   map_of d (i, c) = None \<Longrightarrow>
   map_of (AList.update (i, c) (of_nat (length d)) d) (dms, c) = Some n \<Longrightarrow>
   compress_step p (d0, i, os) c =
     Inr (AList.update (i, c) (of_nat (length d)) d, n, os @ code_bytes p i)"
  by (auto simp: compress_step_def enc_at_def Let_def)

lemma decompress_loop_code:
  "decompress_loop p st (code_bytes p k @ bs) =
     bind_result (decompress_step p st k) (\<lambda>st'. decompress_loop p st' bs)"
proof -
  obtain b1 b2 where b: "code_bytes p k = [b1, b2]"
    by (cases "big_endian p") (simp_all add: code_bytes_def)
  then show ?thesis by (simp add: bytes_code_code_bytes)
qed

subsection \<open>Encoder and decoder in step\<close>

lemma base_lookup:
  assumes "distinct D" and "D = dec_reset_dictionary p @ rest"
  shows "map_of (enc_of D) (dms, c) = Some (base_code p c)"
proof -
  let ?n = "unat (base_code p c)"
  have n: "?n < 256" by (rule unat_base_code)
  then have "D ! ?n = (dms, c)"
    by (simp add: assms(2) nth_append nth_dec_reset base_char_base_code)
  moreover have "map_of (enc_of D) (D ! ?n) = Some (of_nat ?n)"
    using assms(1) by (rule map_of_enc_of_nth) (simp add: assms(2) n [simplified] trans_less_add1)
  ultimately show ?thesis by simp
qed

lemma decompress_step_in_sync:
  assumes "in_sync p D i w dd j"
  shows "decompress_step p (dd, j, os) i = Some (Inr (D, i, os @ w))"
proof -
  from assms have wf: "wf_dict D" and i: "unat i < length D" and sp: "spells D i w"
    and tl: "if j = dms then D = dec_reset_dictionary p \<and> dd = D
             else D = reset_if_full p dd @ [(j, hd w)]"
    by (simp_all add: in_sync_def)
  have i_dms: "i \<noteq> dms" using wf i by (rule wf_dict_code_neq_dms)
  have "w \<noteq> []" using sp i_dms by (rule spells_nonempty)
  then obtain b bs where wb: "w = b # bs" by (cases w) auto
  have rb: "rebuild_string D i = Some (Inr (b # bs))"
    using sp unfolding wb by (rule spells_rebuild_string)
  show ?thesis
  proof (cases "j = dms")
    case True
    with tl have D: "D = dec_reset_dictionary p" and dd: "dd = D" by simp_all
    have "reset_if_full p dd = D" by (simp add: reset_if_full_def dd D unat_dms)
    from decompress_step_first [OF this i rb] show ?thesis by (simp add: True wb)
  next
    case False
    define d where "d = reset_if_full p dd"
    from tl False have D: "D = d @ [(j, b)]" by (simp add: d_def wb)
    have d: "reset_if_full p dd = d" by (simp add: d_def)
    have wfd: "wf_dict d" using wf unfolding D by (rule wf_dict_prefix)
    have jd: "unat j < length d" using wf False unfolding D by (rule wf_dict_last)
    show ?thesis
    proof (cases "unat i = length d")
      case True
      from wfd jd obtain s where s: "spells d j s" using wf_dict_spells by blast
      then have "spells D j s" unfolding D by (rule spells_append)
      moreover from sp i_dms obtain s0 where "spells D (fst (D ! unat i)) s0"
        and w0: "w = s0 @ [snd (D ! unat i)]" by (rule spells_entryE)
      moreover have "D ! unat i = (j, b)" by (simp add: True D)
      ultimately have "s0 = s" using spells_unique by simp
      moreover have "s \<noteq> []" using s False by (rule spells_nonempty)
      ultimately obtain bs' where "s = b # bs'" using w0 wb by (cases s) auto
      with s have "rebuild_string d j = Some (Inr (b # bs'))" by (simp add: spells_rebuild_string)
      from decompress_step_fresh [OF d True this rb [unfolded D]] show ?thesis
        by (simp add: D wb)
    next
      case False
      with i have lt: "unat i < length d" by (simp add: D)
      with wfd obtain s where s: "spells d i s" using wf_dict_spells by blast
      then have "spells D i s" unfolding D by (rule spells_append)
      with sp have "s = w" using spells_unique by blast
      with s have "rebuild_string d i = Some (Inr (b # bs))" by (simp add: spells_rebuild_string wb)
      from decompress_step_known [OF d lt this \<open>j \<noteq> dms\<close>] show ?thesis
        by (simp add: D wb)
    qed
  qed
qed

lemma in_sync_hit:
  assumes sync: "in_sync p D i w dd j" and full: "length D \<noteq> 65535"
    and n: "n < length D" and Dn: "D ! n = (i, c)"
  shows "compress_step p (enc_of D, i, os) c = Inr (enc_of D, of_nat n, os)"
    and "in_sync p D (of_nat n) (w @ [c]) dd j"
proof -
  from sync have wf: "wf_dict D" and dist: "distinct D" and i: "unat i < length D"
    and sp: "spells D i w" by (simp_all add: in_sync_def)
  have len: "length D \<le> 65535" using wf by (simp add: wf_dict_def)
  have un: "unat (of_nat n :: code) = n" using n len by (simp add: unat_of_nat_code)
  have "map_of (enc_of D) (i, c) = Some (of_nat n)"
    using map_of_enc_of_nth [OF dist n] by (simp add: Dn)
  moreover have "(if length (enc_of D) = unat dms then enc_reset_dictionary p else enc_of D) = enc_of D"
    using full by (simp add: unat_dms)
  ultimately show "compress_step p (enc_of D, i, os) c = Inr (enc_of D, of_nat n, os)"
    by (rule compress_step_hit [rotated])
  have i_dms: "i \<noteq> dms" using wf i by (rule wf_dict_code_neq_dms)
  have w: "w \<noteq> []" using sp i_dms by (rule spells_nonempty)
  have n_dms: "(of_nat n :: code) \<noteq> dms" using un n len by (auto simp: unat_dms)
  have "spells D (of_nat n) (w @ [snd (D ! unat (of_nat n :: code))])"
    using n_dms by (rule spells_entry) (simp_all add: un n Dn sp)
  then have "spells D (of_nat n) (w @ [c])" by (simp add: un Dn)
  then show "in_sync p D (of_nat n) (w @ [c]) dd j"
    using sync w full by (simp add: in_sync_def un n)
qed

lemma in_sync_miss:
  assumes sync: "in_sync p D i w dd j" and full: "length D \<noteq> 65535"
    and notin: "(i, c) \<notin> set D"
  shows "compress_step p (enc_of D, i, os) c =
           Inr (enc_of (D @ [(i, c)]), base_code p c, os @ code_bytes p i)"
    and "in_sync p (D @ [(i, c)]) (base_code p c) [c] D i"
proof -
  from sync have wf: "wf_dict D" and dist: "distinct D" and i: "unat i < length D"
    and sp: "spells D i w" by (simp_all add: in_sync_def)
  from sync obtain rest where rest: "D = dec_reset_dictionary p @ rest"
    by (auto simp: in_sync_def)
  have len: "length D < 65535" using wf full by (simp add: wf_dict_def)
  have i_dms: "i \<noteq> dms" using wf i by (rule wf_dict_code_neq_dms)
  let ?D = "D @ [(i, c)]"
  have dist': "distinct ?D" using dist notin by simp
  have rest': "?D = dec_reset_dictionary p @ (rest @ [(i, c)])" by (simp add: rest)
  have nofull: "(if length (enc_of D) = unat dms then enc_reset_dictionary p else enc_of D) = enc_of D"
    using full by (simp add: unat_dms)
  have none: "map_of (enc_of D) (i, c) = None" using notin by (simp add: map_of_enc_of_None)
  have upd: "AList.update (i, c) (of_nat (length (enc_of D))) (enc_of D) = enc_of ?D"
    using notin by (rule update_enc_of)
  have "map_of (enc_of ?D) (dms, c) = Some (base_code p c)"
    using dist' rest' by (rule base_lookup)
  then have "map_of (AList.update (i, c) (of_nat (length (enc_of D))) (enc_of D)) (dms, c)
      = Some (base_code p c)" by (simp only: upd)
  from compress_step_miss [OF nofull none this]
  show "compress_step p (enc_of D, i, os) c =
           Inr (enc_of ?D, base_code p c, os @ code_bytes p i)"
    by (simp only: upd)
  have wf': "wf_dict ?D" using wf len i by (rule wf_dict_snoc)
  have "spells (dec_reset_dictionary p) (base_code p c) [c]" by (rule spells_base_code)
  then have sp': "spells ?D (base_code p c) [c]" unfolding rest' by (rule spells_append)
  have uc: "unat (base_code p c) < length ?D"
    using unat_base_code [of p c] by (simp add: rest)
  have rf: "reset_if_full p D = D" using full by (simp add: reset_if_full_def unat_dms)
  show "in_sync p ?D (base_code p c) [c] D i"
    unfolding in_sync_def
  proof (intro conjI impI)
    show "\<exists>r. ?D = dec_reset_dictionary p @ r" using rest' ..
    show "unat (base_code p c) < 256" by (rule unat_base_code)
    show "if i = dms then ?D = dec_reset_dictionary p \<and> D = ?D
          else ?D = reset_if_full p D @ [(i, hd [c])]"
      using i_dms rf by simp
  qed (fact wf' dist' uc sp')+
qed

lemma in_sync_reset:
  assumes sync: "in_sync p D i w dd j" and full: "length D = 65535"
  shows "compress_step p (enc_of D, i, os) c =
           Inr (enc_of (dec_reset_dictionary p @ [(i, c)]), base_code p c, os @ code_bytes p i)"
    and "in_sync p (dec_reset_dictionary p @ [(i, c)]) (base_code p c) [c] D i"
proof -
  from sync full have wf: "wf_dict D" and i: "unat i < 256" by (simp_all add: in_sync_def)
  from sync have iD: "unat i < length D" by (simp add: in_sync_def)
  have i_dms: "i \<noteq> dms" using wf iD by (rule wf_dict_code_neq_dms)
  let ?B = "dec_reset_dictionary p"
  let ?D = "?B @ [(i, c)]"
  have notin: "(i, c) \<notin> set ?B" using i_dms by (simp add: dec_reset_mem)
  have dist': "distinct ?D" using notin by (simp add: distinct_dec_reset)
  have isfull: "(if length (enc_of D) = unat dms then enc_reset_dictionary p else enc_of D) = enc_of ?B"
    using full by (simp add: unat_dms enc_reset_dictionary_eq)
  have none: "map_of (enc_of ?B) (i, c) = None" using notin by (simp add: map_of_enc_of_None)
  have upd: "AList.update (i, c) (of_nat (length (enc_of ?B))) (enc_of ?B) = enc_of ?D"
    using notin by (rule update_enc_of)
  have "map_of (enc_of ?D) (dms, c) = Some (base_code p c)"
    using dist' by (rule base_lookup) simp
  then have "map_of (AList.update (i, c) (of_nat (length (enc_of ?B))) (enc_of ?B)) (dms, c)
      = Some (base_code p c)" by (simp only: upd)
  from compress_step_miss [OF isfull none this]
  show "compress_step p (enc_of D, i, os) c =
           Inr (enc_of ?D, base_code p c, os @ code_bytes p i)"
    by (simp only: upd)
  have wf': "wf_dict ?D" by (rule wf_dict_snoc) (simp_all add: wf_dict_dec_reset i)
  have "spells ?B (base_code p c) [c]" by (rule spells_base_code)
  then have sp': "spells ?D (base_code p c) [c]" by (rule spells_append)
  have uc: "unat (base_code p c) < length ?D"
    using unat_base_code [of p c] by simp
  have rf: "reset_if_full p D = ?B" using full by (simp add: reset_if_full_def unat_dms)
  show "in_sync p ?D (base_code p c) [c] D i"
    unfolding in_sync_def
  proof (intro conjI impI)
    show "\<exists>r. ?D = dec_reset_dictionary p @ r" by blast
    show "unat (base_code p c) < 256" by (rule unat_base_code)
    show "if i = dms then ?D = dec_reset_dictionary p \<and> D = ?D
          else ?D = reset_if_full p D @ [(i, hd [c])]"
      using i_dms rf by simp
  qed (fact wf' dist' uc sp')+
qed

text \<open>A step of the encoder either extends the match or emits its code.\<close>

lemma in_sync_step:
  assumes "in_sync p D i w dd j"
  shows "(\<exists>i'. compress_step p (enc_of D, i, os) c = Inr (enc_of D, i', os)
            \<and> in_sync p D i' (w @ [c]) dd j)
       \<or> (\<exists>D'. compress_step p (enc_of D, i, os) c
                = Inr (enc_of D', base_code p c, os @ code_bytes p i)
            \<and> in_sync p D' (base_code p c) [c] D i)"
proof (cases "length D = 65535")
  case True
  with assms in_sync_reset show ?thesis by blast
next
  case False
  show ?thesis
  proof (cases "(i, c) \<in> set D")
    case True
    then obtain n where "n < length D" and "D ! n = (i, c)" by (auto simp: in_set_conv_nth)
    with assms False in_sync_hit show ?thesis by blast
  next
    case notin: False
    with assms False in_sync_miss show ?thesis by blast
  qed
qed

lemma in_sync_start:
  "compress_step p (enc_reset_dictionary p, dms, []) c
     = Inr (enc_reset_dictionary p, base_code p c, [])"
  "in_sync p (dec_reset_dictionary p) (base_code p c) [c] (dec_reset_dictionary p) dms"
proof -
  have "(if length (enc_reset_dictionary p) = unat dms then enc_reset_dictionary p
         else enc_reset_dictionary p) = enc_reset_dictionary p" by simp
  then show "compress_step p (enc_reset_dictionary p, dms, []) c
     = Inr (enc_reset_dictionary p, base_code p c, [])"
    using enc_reset_lookup by (rule compress_step_hit)
  show "in_sync p (dec_reset_dictionary p) (base_code p c) [c] (dec_reset_dictionary p) dms"
    using unat_base_code [of p c]
    by (simp add: in_sync_def wf_dict_dec_reset distinct_dec_reset spells_base_code)
qed

text \<open>
  The encoder run from a state in step with the decoder: the bytes it writes from
  there on, flush included, take the decoder from its state to the end of the input,
  where it has written the pending match and the rest of the input.
\<close>

lemma in_sync_run:
  assumes "in_sync p D i w dd j"
  shows "\<exists>st ys dl il. compress_loop p (enc_of D, i, os) cs = Inr st
           \<and> compress_flush p st = os @ ys
           \<and> decompress_loop p (dd, j, out) ys = Some (Inr ((dl, il, out @ w @ cs), 0))"
  using assms
proof (induction cs arbitrary: D i w dd j os out)
  case Nil
  then have "wf_dict D" and "unat i < length D" by (simp_all add: in_sync_def)
  then have "i \<noteq> dms" by (rule wf_dict_code_neq_dms)
  then have "compress_flush p (enc_of D, i, os) = os @ code_bytes p i"
    by (simp add: compress_flush_def)
  moreover have "decompress_loop p (dd, j, out) (code_bytes p i) = Some (Inr ((D, i, out @ w), 0))"
    using decompress_loop_code [of p "(dd, j, out)" i "[]"] decompress_step_in_sync [OF Nil]
    by (simp add: bind_result_def)
  ultimately show ?case by simp
next
  case (Cons c cs)
  from in_sync_step [OF Cons.prems, of os c] show ?case
  proof (elim disjE exE conjE)
    fix i'
    assume step: "compress_step p (enc_of D, i, os) c = Inr (enc_of D, i', os)"
      and sync: "in_sync p D i' (w @ [c]) dd j"
    from Cons.IH [OF sync, of os out] step show ?thesis by simp
  next
    fix D'
    assume step: "compress_step p (enc_of D, i, os) c
        = Inr (enc_of D', base_code p c, os @ code_bytes p i)"
      and sync: "in_sync p D' (base_code p c) [c] D i"
    from Cons.IH [OF sync, of "os @ code_bytes p i" "out @ w"]
    obtain st ys dl il where run: "compress_loop p (enc_of D', base_code p c, os @ code_bytes p i) cs = Inr st"
      and fl: "compress_flush p st = (os @ code_bytes p i) @ ys"
      and dec: "decompress_loop p (D, i, out @ w) ys = Some (Inr ((dl, il, (out @ w) @ [c] @ cs), 0))"
      by blast
    have "decompress_loop p (dd, j, out) (code_bytes p i @ ys)
        = Some (Inr ((dl, il, out @ w @ c # cs), 0))"
      using decompress_step_in_sync [OF Cons.prems, of out] dec
      by (simp add: decompress_loop_code bind_result_def)
    with run fl step show ?thesis by simp
  qed
qed

lemma compress_then_decompress:
  "\<exists>ys. compress p x = Inr ys \<and> decompress p ys = Some (Inr x)"
proof (cases x)
  case Nil
  then show ?thesis by (simp add: compress_def compress_flush_def decompress_def bind_result_def dms_def)
next
  case (Cons c cs)
  from in_sync_run [OF in_sync_start(2), of p c "[]" cs "[]"]
  obtain st ys dl il where run: "compress_loop p (enc_of (dec_reset_dictionary p), base_code p c, []) cs = Inr st"
    and fl: "compress_flush p st = ys"
    and dec: "decompress_loop p (dec_reset_dictionary p, dms, []) ys = Some (Inr ((dl, il, c # cs), 0))"
    by auto
  have "compress p x = Inr ys"
    using run fl by (simp add: compress_def Cons in_sync_start(1) enc_reset_dictionary_eq [symmetric])
  moreover have "decompress p ys = Some (Inr x)"
    using dec by (simp add: decompress_def bind_result_def Cons)
  ultimately show ?thesis by simp
qed

lemma rebuild_loop_spells:
  assumes "rebuild_loop d k acc = Some r"
  shows "r = Inl OutOfRange \<or> (\<exists>s. spells d k s \<and> r = Inr (acc @ rev s))"
proof (rule rebuild_loop.raw_induct [where P = "\<lambda>d k acc r.
    r = Inl OutOfRange \<or> (\<exists>s. spells d k s \<and> r = Inr (acc @ rev s))", OF _ assms], goal_cases)
  case (1 loop d k acc r)
  show ?case
  proof (cases "k = dms")
    case True
    with 1(2) show ?thesis using spells_dms by auto
  next
    case k: False
    show ?thesis
    proof (cases "unat k < length d")
      case False
      with 1(2) k show ?thesis by simp
    next
      case True
      with 1(2) k have "loop d (fst (d ! unat k)) (acc @ [snd (d ! unat k)]) = Some r" by simp
      from 1(1) [OF this] show ?thesis
      proof
        assume "r = Inl OutOfRange" then show ?thesis ..
      next
        assume "\<exists>s. spells d (fst (d ! unat k)) s \<and> r = Inr ((acc @ [snd (d ! unat k)]) @ rev s)"
        then obtain s where s: "spells d (fst (d ! unat k)) s"
          and r: "r = Inr ((acc @ [snd (d ! unat k)]) @ rev s)" by blast
        from k True s have "spells d k (s @ [snd (d ! unat k)])" by (rule spells_entry)
        with r show ?thesis by auto
      qed
    qed
  qed
qed

lemma rebuild_string_cases:
  assumes "rebuild_string d k = Some r"
  shows "r = Inl OutOfRange \<or> r = Inl BadAlloc \<or> (\<exists>s. spells d k s \<and> r = Inr s)"
proof (cases "rebuild_loop d k []")
  case None
  with assms show ?thesis by (simp add: rebuild_string_def)
next
  case (Some r0)
  from rebuild_loop_spells [OF Some] assms Some show ?thesis
    by (auto simp: rebuild_string_def)
qed

text \<open>
  An entry whose prefix is the entry itself: the walk does not leave it, and
  \<^verbatim>\<open>rebuild_string\<close> ends with the failed allocation.
\<close>

lemma rebuild_loop_cycle:
  assumes "k \<noteq> dms" and "unat k < length d" and "fst (d ! unat k) = k"
  shows "rebuild_loop d k s = None"
proof (rule ccontr)
  assume "rebuild_loop d k s \<noteq> None"
  then obtain y where y: "rebuild_loop d k s = Some y" by auto
  have "\<not> (d = d \<and> k = k)"
  proof (rule rebuild_loop.raw_induct [where P = "\<lambda>d' k' s' y'. \<not> (d' = d \<and> k' = k)",
        OF _ y], goal_cases)
    case (1 loop d' k' s' y')
    show ?case
    proof
      assume "d' = d \<and> k' = k"
      with 1(2) assms have "loop d k (s' @ [snd (d ! unat k)]) = Some y'" by simp
      from 1(1) [OF this] show False by simp
    qed
  qed
  then show False by simp
qed

lemma rebuild_string_cycle:
  "k \<noteq> dms \<Longrightarrow> unat k < length d \<Longrightarrow> fst (d ! unat k) = k \<Longrightarrow>
   rebuild_string d k = Some (Inl BadAlloc)"
  by (simp add: rebuild_string_def rebuild_loop_cycle)

lemma rebuild_string_returns: "rebuild_string d k \<noteq> None"
  by (simp add: rebuild_string_def split: option.splits sum.splits)

lemma rebuild_string_Inr: "rebuild_string d k = Some (Inr s) \<Longrightarrow> spells d k s"
  by (drule rebuild_string_cases) auto

lemma rebuild_string_Inl:
  "rebuild_string d k = Some (Inl e) \<Longrightarrow> e = OutOfRange \<or> e = BadAlloc"
  by (drule rebuild_string_cases) auto

lemma rebuild_string_nonempty:
  "rebuild_string d k = Some (Inr s) \<Longrightarrow> k \<noteq> dms \<Longrightarrow> s \<noteq> []"
  by (drule rebuild_string_Inr) (rule spells_nonempty)

lemma bind_result_Inl:
  "bind_result r f = Some (Inl e) \<longleftrightarrow>
     r = Some (Inl e) \<or> (\<exists>x. r = Some (Inr x) \<and> f x = Some (Inl e))"
  by (auto simp: bind_result_def split: option.splits sum.splits)

lemma front_Inl: "front s = Some (Inl e) \<longleftrightarrow> s = [] \<and> e = EmptyFront"
  by (auto simp: front_def split: list.splits)

lemma decompress_step_InvalidCode:
  "decompress_step p (d0, i, os) k = Some (Inl InvalidCode) \<longleftrightarrow>
     length (reset_if_full p d0) < unat k"
  by (auto simp: decompress_step_def reset_if_full_def Let_def bind_result_Inl front_Inl
      dest: rebuild_string_Inl)

lemma decompress_step_CorruptStream:
  "decompress_step p (d0, i, os) k \<noteq> Some (Inl CorruptStream)"
  by (auto simp: decompress_step_def reset_if_full_def Let_def bind_result_Inl front_Inl
      dest: rebuild_string_Inl)

lemma length_reset_if_full: "length d0 \<le> 65535 \<Longrightarrow> length (reset_if_full p d0) < 65535"
  by (simp add: reset_if_full_def unat_dms)

lemma decompress_step_EmptyFront:
  assumes "length d0 \<le> 65535"
  shows "decompress_step p (d0, i, os) k = Some (Inl EmptyFront) \<longleftrightarrow>
     unat k = length (reset_if_full p d0) \<and> i = dms"
proof -
  define d where "d = reset_if_full p d0"
  have len: "length d < 65535" unfolding d_def using assms by (rule length_reset_if_full)
  have k: "k \<noteq> dms" if "unat k \<le> length d" using that len by (auto simp: unat_dms)
  have d: "(if length d0 = unat dms then dec_reset_dictionary p else d0) = d"
    by (simp add: d_def reset_if_full_def)
  have empty: "rebuild_string d dms = Some (Inr [])"
    using spells_dms by (rule spells_rebuild_string)
  show ?thesis
  proof (cases "unat k = length d")
    case True
    then have kd: "k \<noteq> dms" using k by simp
    show ?thesis
    proof (cases "i = dms")
      case True
      with \<open>unat k = length d\<close> empty show ?thesis
        by (simp add: decompress_step_def d d_def [symmetric] bind_result_def front_def)
    next
      case False
      with True kd show ?thesis
        by (auto simp: decompress_step_def d d_def [symmetric] Let_def bind_result_Inl front_Inl
            dest: rebuild_string_Inl rebuild_string_nonempty)
    qed
  next
    case False
    show ?thesis
    proof (cases "unat k < length d")
      case True
      then have "k \<noteq> dms" using k by simp
      with True False show ?thesis
        by (auto simp: decompress_step_def d d_def [symmetric] Let_def bind_result_Inl front_Inl
            dest: rebuild_string_Inl rebuild_string_nonempty)
    next
      case gt: False
      with False show ?thesis
        by (simp add: decompress_step_def d d_def [symmetric])
    qed
  qed
qed

lemma decompress_step_state:
  assumes "decompress_step p (d0, i, os) k = Some (Inr (d', i', os'))" and "length d0 \<le> 65535"
  shows "length d' \<le> 65535 \<and> i' \<noteq> dms"
proof -
  have len: "length (reset_if_full p d0) < 65535" using assms(2) by (rule length_reset_if_full)
  from assms(1) have "i' = k \<and> unat k \<le> length (reset_if_full p d0) \<and>
      length d' \<le> Suc (length (reset_if_full p d0))"
    by (auto simp: decompress_step_def reset_if_full_def Let_def bind_result_def
        split: if_splits option.splits sum.splits)
  with len show ?thesis by (auto simp: unat_dms)
qed

lemma in_sync_code: "in_sync p D i w dd j \<Longrightarrow> i \<noteq> dms"
  unfolding in_sync_def using wf_dict_code_neq_dms by blast

lemma in_sync_loop:
  assumes "in_sync p D i w dd j"
  shows "\<exists>D' i' w' dd' j' os'. compress_loop p (enc_of D, i, os) cs = Inr (enc_of D', i', os')
           \<and> in_sync p D' i' w' dd' j'"
  using assms
proof (induction cs arbitrary: D i w dd j os)
  case Nil
  then show ?case by auto
next
  case (Cons c cs)
  from in_sync_step [OF Cons.prems, of os c] show ?case
  proof (elim disjE exE conjE)
    fix i'
    assume "compress_step p (enc_of D, i, os) c = Inr (enc_of D, i', os)"
      and "in_sync p D i' (w @ [c]) dd j"
    with Cons.IH [of D i' "w @ [c]" dd j os] show ?thesis by simp
  next
    fix D'
    assume "compress_step p (enc_of D, i, os) c
        = Inr (enc_of D', base_code p c, os @ code_bytes p i)"
      and "in_sync p D' (base_code p c) [c] D i"
    with Cons.IH [of D' "base_code p c" "[c]" D i "os @ code_bytes p i"] show ?thesis by simp
  qed
qed

lemma compress_loop_nonempty:
  "\<exists>d i os. compress_loop p (enc_reset_dictionary p, dms, []) (c # cs) = Inr (d, i, os) \<and> i \<noteq> dms"
proof -
  from in_sync_loop [OF in_sync_start(2), of p c "[]" cs]
  obtain D' i' w' dd' j' os' where
    "compress_loop p (enc_of (dec_reset_dictionary p), base_code p c, []) cs = Inr (enc_of D', i', os')"
    and "in_sync p D' i' w' dd' j'" by blast
  then show ?thesis
    using in_sync_code by (auto simp: in_sync_start(1) enc_reset_dictionary_eq [symmetric])
qed

lemma base_code_neq_dms: "base_code p c \<noteq> dms"
  using unat_base_code [of p c] by (auto simp: unat_dms)

lemma compress_single: "compress p [c] = Inr (code_bytes p (base_code p c))"
  by (simp add: compress_def in_sync_start(1) compress_flush_def base_code_neq_dms)

lemma decompress_single: "decompress p (code_bytes p (base_code p c)) = Some (Inr [c])"
proof -
  have "reset_if_full p (dec_reset_dictionary p) = dec_reset_dictionary p"
    by (simp add: reset_if_full_def unat_dms)
  moreover have "unat (base_code p c) < length (dec_reset_dictionary p)"
    using unat_base_code [of p c] by simp
  moreover have "rebuild_string (dec_reset_dictionary p) (base_code p c) = Some (Inr [c])"
    using spells_base_code by (rule spells_rebuild_string)
  ultimately have "decompress_step p (dec_reset_dictionary p, dms, []) (base_code p c)
      = Some (Inr (dec_reset_dictionary p, base_code p c, [] @ [c]))"
    by (rule decompress_step_first)
  then show ?thesis
    using decompress_loop_code [of p "(dec_reset_dictionary p, dms, [])" "base_code p c" "[]"]
    by (simp add: decompress_def bind_result_def)
qed

lemma decompress_loop_gcount:
  "even (length bs) \<Longrightarrow> decompress_loop p st bs = Some (Inr (st', g)) \<Longrightarrow> g = 0"
proof (induction p st bs rule: decompress_loop.induct)
  case (1 p st b1 b2 bs)
  from "1.prems" obtain st1 where "decompress_step p st (bytes_code p b1 b2) = Some (Inr st1)"
    and "decompress_loop p st1 bs = Some (Inr (st', g))"
    by (auto simp: bind_result_def split: option.splits sum.splits)
  with "1.IH" [of st1] "1.prems"(1) show ?case by simp
qed simp_all

lemma decompress_loop_trailing:
  "even (length bs) \<Longrightarrow>
   decompress_loop p st (bs @ [b]) =
     bind_result (decompress_loop p st bs) (\<lambda>(st', g). Some (Inr (st', 1)))"
proof (induction p st bs rule: decompress_loop.induct)
  case (1 p st b1 b2 bs)
  then show ?case
    by (cases "decompress_step p st (bytes_code p b1 b2)")
      (auto simp: bind_result_def split: sum.splits)
qed (simp_all add: bind_result_def)

lemma decompress_loop_CorruptStream:
  "decompress_loop p st bs \<noteq> Some (Inl CorruptStream)"
proof (induction p st bs rule: decompress_loop.induct)
  case (1 p st b1 b2 bs)
  obtain d0 i os where st: "st = (d0, i, os)" by (cases st)
  show ?case using 1 decompress_step_CorruptStream [of p d0 i os]
    by (auto simp: bind_result_Inl st)
qed simp_all

lemma decompress_trailing:
  assumes "even (length bs)"
  shows "decompress p (bs @ [b]) = bind_result (decompress p bs) (\<lambda>_. Some (Inl CorruptStream))"
proof (cases "decompress_loop p (dec_reset_dictionary p, dms, []) bs")
  case None
  then show ?thesis
    by (simp add: decompress_def decompress_loop_trailing [OF assms] bind_result_def)
next
  case (Some r)
  show ?thesis
  proof (cases r)
    case (Inl e)
    with Some show ?thesis
      by (simp add: decompress_def decompress_loop_trailing [OF assms] bind_result_def)
  next
    case (Inr sg)
    obtain st g where sg: "sg = (st, g)" by (cases sg)
    from Some Inr sg have "g = 0" using decompress_loop_gcount [OF assms] by simp
    with Some Inr sg show ?thesis
      by (simp add: decompress_def decompress_loop_trailing [OF assms] bind_result_def
          split: prod.splits)
  qed
qed

lemma decompress_even:
  assumes "even (length bs)"
  shows "decompress p bs \<noteq> Some (Inl CorruptStream)"
proof
  assume c: "decompress p bs = Some (Inl CorruptStream)"
  then obtain st g where l: "decompress_loop p (dec_reset_dictionary p, dms, []) bs = Some (Inr (st, g))"
    using decompress_loop_CorruptStream [of p "(dec_reset_dictionary p, dms, [])" bs]
    by (auto simp: decompress_def bind_result_Inl)
  then have "g = 0" using decompress_loop_gcount [OF assms] by simp
  with l c show False by (simp add: decompress_def bind_result_def split: prod.splits)
qed

lemma decompress_loop_EmptyFront_aux:
  "length (fst st) \<le> 65535 \<Longrightarrow> fst (snd st) \<noteq> dms \<Longrightarrow>
   decompress_loop p st bs \<noteq> Some (Inl EmptyFront)"
proof (induction p st bs rule: decompress_loop.induct)
  case (1 p st b1 b2 bs)
  obtain d0 i os where st0: "st = (d0, i, os)" by (cases st)
  note prems = "1.prems" [unfolded st0, simplified]
  let ?k = "bytes_code p b1 b2"
  have no: "decompress_step p (d0, i, os) ?k \<noteq> Some (Inl EmptyFront)"
    using prems by (simp add: decompress_step_EmptyFront)
  show ?case
  proof
    assume "decompress_loop p st (b1 # b2 # bs) = Some (Inl EmptyFront)"
    with no obtain st' where st: "decompress_step p (d0, i, os) ?k = Some (Inr st')"
      and l: "decompress_loop p st' bs = Some (Inl EmptyFront)"
      by (auto simp: bind_result_Inl st0)
    obtain d' i' os' where st': "st' = (d', i', os')" by (cases st')
    from decompress_step_state [OF st [unfolded st'] prems(1)]
    have "length (fst st') \<le> 65535" and "fst (snd st') \<noteq> dms" by (simp_all add: st')
    with "1.IH" [of st'] l show False by simp
  qed
qed simp_all

lemma decompress_loop_EmptyFront:
  "length d0 \<le> 65535 \<Longrightarrow> i \<noteq> dms \<Longrightarrow>
   decompress_loop p (d0, i, os) bs \<noteq> Some (Inl EmptyFront)"
  using decompress_loop_EmptyFront_aux [of "(d0, i, os)" p bs] by simp

lemma unat_eq_256: "unat (k :: code) = 256 \<longleftrightarrow> k = 256"
proof
  assume "unat k = 256"
  then have "of_nat (unat k) = (of_nat 256 :: code)" by simp
  then show "k = 256" by simp
next
  assume "k = 256"
  then show "unat k = 256" by simp
qed

lemma decompress_EmptyFront:
  "decompress p bs = Some (Inl EmptyFront) \<longleftrightarrow>
     (\<exists>b1 b2 rest. bs = b1 # b2 # rest \<and> bytes_code p b1 b2 = 256)"
proof -
  consider "bs = []" | b where "bs = [b]" | b1 b2 rest where "bs = b1 # b2 # rest"
  proof (cases bs)
    case Nil
    then show ?thesis using that by simp
  next
    case (Cons b1 bs')
    then show ?thesis using that by (cases bs') simp_all
  qed
  then show ?thesis
  proof cases
  case 1
  then show ?thesis by (simp add: decompress_def bind_result_def)
next
  case 2
  then show ?thesis by (simp add: decompress_def bind_result_def)
next
  case bs: 3
  let ?k = "bytes_code p b1 b2"
  let ?B = "dec_reset_dictionary p"
  have rf: "reset_if_full p ?B = ?B" by (simp add: reset_if_full_def unat_dms)
  have ef: "decompress_step p (?B, dms, []) ?k = Some (Inl EmptyFront) \<longleftrightarrow> ?k = 256"
  proof -
    have "unat ?k = 256 \<longleftrightarrow> ?k = 256" by (rule unat_eq_256)
    then show ?thesis by (simp add: decompress_step_EmptyFront rf)
  qed
  show ?thesis
  proof (cases "decompress_step p (?B, dms, []) ?k")
    case None
    with ef show ?thesis by (simp add: decompress_def bs bind_result_def)
  next
    case (Some r)
    show ?thesis
    proof (cases r)
      case (Inl e)
      with Some ef show ?thesis by (auto simp: decompress_def bs bind_result_def)
    next
      case (Inr st')
      obtain d' i' os' where st': "st' = (d', i', os')" by (cases st')
      from decompress_step_state [of p ?B dms "[]" ?k d' i' os'] Some Inr st'
      have "length d' \<le> 65535" and "i' \<noteq> dms" by simp_all
      then have "decompress_loop p (d', i', os') rest \<noteq> Some (Inl EmptyFront)"
        by (rule decompress_loop_EmptyFront)
      moreover have "?k \<noteq> 256" using ef Some Inr by simp
      ultimately show ?thesis using Some Inr st'
        by (auto simp: decompress_def bs bind_result_Inl split: prod.splits)
    qed
  qed
qed
qed

subsection \<open>The decoder returns or throws\<close>

lemma bind_result_returns:
  "\<exists>y. r = Some y \<Longrightarrow> (\<And>x. \<exists>y. f x = Some y) \<Longrightarrow> \<exists>y. bind_result r f = Some y"
  by (auto simp: bind_result_def split: option.splits sum.splits)

lemma front_returns: "\<exists>y. front s = Some y"
  by (simp add: front_def split: list.splits)

lemma rebuild_string_Some: "\<exists>y. rebuild_string d k = Some y"
  using rebuild_string_returns [of d k] by simp

lemma decompress_step_returns: "\<exists>y. decompress_step p st k = Some y"
  by (cases st)
    (auto simp: decompress_step_def Let_def
      intro!: bind_result_returns rebuild_string_Some front_returns)

lemma decompress_loop_returns: "\<exists>y. decompress_loop p st bs = Some y"
  by (induction p st bs rule: decompress_loop.induct)
    (auto intro!: bind_result_returns decompress_step_returns)

lemma decompress_returns: "decompress p bs \<noteq> None"
proof -
  have "\<exists>y. decompress p bs = Some y"
    unfolding decompress_def
    by (rule bind_result_returns) (auto simp: decompress_loop_returns)
  then show ?thesis by simp
qed

subsection \<open>Resets\<close>

lemma decompress_resets_code:
  "decompress_resets p (d, i, os) n (code_bytes p k @ bs) =
     (if length d = unat dms then [(n, d)] else []) @
     (case decompress_step p (d, i, os) k of
        Some (Inr st') \<Rightarrow> decompress_resets p st' (n + 2) bs
      | _ \<Rightarrow> [])"
proof -
  obtain b1 b2 where b: "code_bytes p k = [b1, b2]"
    by (cases "big_endian p") (simp_all add: code_bytes_def)
  then show ?thesis by (simp add: bytes_code_code_bytes)
qed

lemma compress_step_output:
  "compress_step p (d, i, os) c = Inr (d', i', os') \<Longrightarrow> \<exists>zs. os' = os @ zs"
  by (auto simp: compress_step_def Let_def split: if_splits sum.splits)

lemma compress_loop_output:
  "compress_loop p (d, i, os) cs = Inr st \<Longrightarrow> \<exists>zs. compress_flush p st = os @ zs"
proof (induction cs arbitrary: d i os)
  case Nil
  then show ?case by (auto simp: compress_flush_def)
next
  case (Cons c cs)
  from Cons.prems obtain d' i' os' where
    step: "compress_step p (d, i, os) c = Inr (d', i', os')"
    and loop: "compress_loop p (d', i', os') cs = Inr st"
    by (auto split: sum.splits)
  from compress_step_output [OF step] obtain zs where "os' = os @ zs" ..
  with Cons.IH [OF loop] show ?case by auto
qed

lemma in_sync_hit_not_full:
  assumes "in_sync p D i w dd j"
    and "compress_step p (enc_of D, i, os) c = Inr (enc_of D, i', os)"
  shows "length D \<noteq> 65535"
proof
  assume "length D = 65535"
  with in_sync_reset(1) [OF assms(1) this, of os c] assms(2)
  have "enc_of (dec_reset_dictionary p @ [(i, c)]) = enc_of D" by simp
  then have "length (enc_of (dec_reset_dictionary p @ [(i, c)])) = length (enc_of D)" by simp
  with \<open>length D = 65535\<close> show False by simp
qed

lemma in_sync_resets:
  assumes "in_sync p D i w dd j"
    and "compress_loop p (enc_of D, i, os) cs = Inr st"
    and "compress_flush p st = os @ ys"
  shows "decompress_resets p (dd, j, out) (length os) ys =
           (if length dd = unat dms then [(length os, dd)] else []) @
           map (\<lambda>(n, d). (n + 2, map fst d)) (compress_resets p (enc_of D, i, os) cs)"
  using assms
proof (induction cs arbitrary: D i w dd j os out ys)
  case Nil
  then have "i \<noteq> dms" using in_sync_code by blast
  with Nil.prems(2,3) have ys: "ys = code_bytes p i" by (auto simp: compress_flush_def)
  show ?case
    using decompress_resets_code [of p dd j out "length os" i "[]"]
      decompress_step_in_sync [OF Nil.prems(1), of out]
    by (simp add: ys)
next
  case (Cons c cs)
  from in_sync_step [OF Cons.prems(1), of os c] show ?case
  proof (elim disjE exE conjE)
    fix i'
    assume step: "compress_step p (enc_of D, i, os) c = Inr (enc_of D, i', os)"
      and sync: "in_sync p D i' (w @ [c]) dd j"
    have nf: "length D \<noteq> 65535" using Cons.prems(1) step by (rule in_sync_hit_not_full)
    from Cons.prems(2) step have loop: "compress_loop p (enc_of D, i', os) cs = Inr st" by simp
    from Cons.IH [OF sync loop Cons.prems(3), of out] step nf show ?thesis
      by (simp add: unat_dms)
  next
    fix D'
    assume step: "compress_step p (enc_of D, i, os) c
        = Inr (enc_of D', base_code p c, os @ code_bytes p i)"
      and sync: "in_sync p D' (base_code p c) [c] D i"
    from Cons.prems(2) step
    have loop: "compress_loop p (enc_of D', base_code p c, os @ code_bytes p i) cs = Inr st"
      by simp
    from compress_loop_output [OF loop] obtain ys' where
      fl: "compress_flush p st = (os @ code_bytes p i) @ ys'" ..
    with Cons.prems(3) have ys: "ys = code_bytes p i @ ys'" by simp
    from Cons.IH [OF sync loop fl, of "out @ w"]
    have "decompress_resets p (D, i, out @ w) (length os + 2) ys' =
           (if length D = unat dms then [(length os + 2, D)] else []) @
           map (\<lambda>(n, d). (n + 2, map fst d))
             (compress_resets p (enc_of D', base_code p c, os @ code_bytes p i) cs)"
      by (simp add: length_code_bytes)
    then show ?thesis
      using decompress_resets_code [of p dd j out "length os" i ys']
        decompress_step_in_sync [OF Cons.prems(1), of out] step
      by (simp add: ys)
  qed
qed

lemma resets_agree:
  "\<exists>ys. compress p x = Inr ys \<and> decompress p ys = Some (Inr x)
     \<and> decompress_resets p (dec_reset_dictionary p, dms, []) 0 ys
        = map (\<lambda>(n, d). (n + 2, map fst d))
            (compress_resets p (enc_reset_dictionary p, dms, []) x)"
proof -
  from compress_then_decompress [of p x] obtain ys where
    c: "compress p x = Inr ys" and d: "decompress p ys = Some (Inr x)" by blast
  have "decompress_resets p (dec_reset_dictionary p, dms, []) 0 ys
        = map (\<lambda>(n, d). (n + 2, map fst d))
            (compress_resets p (enc_reset_dictionary p, dms, []) x)"
  proof (cases x)
    case Nil
    with c show ?thesis by (simp add: compress_def compress_flush_def)
  next
    case (Cons b bs)
    let ?st = "(enc_of (dec_reset_dictionary p), base_code p b, [])"
    from c obtain st where loop: "compress_loop p ?st bs = Inr st"
      and fl: "compress_flush p st = [] @ ys"
      by (auto simp: compress_def Cons in_sync_start(1) enc_reset_dictionary_eq [symmetric]
          split: sum.splits)
    have "length (enc_reset_dictionary p) \<noteq> unat dms"
      by (simp add: enc_reset_dictionary_eq unat_dms)
    with in_sync_resets [OF in_sync_start(2) loop fl, of "[]"] show ?thesis
      by (simp add: Cons in_sync_start(1) unat_dms enc_reset_dictionary_eq [symmetric])
  qed
  with c d show ?thesis by blast
qed

subsection \<open>The capacity is reached\<close>

lemma compress_loop_append:
  "compress_loop p st cs = Inr st1 \<Longrightarrow> compress_loop p st (cs @ cs2) = compress_loop p st1 cs2"
  by (induction cs arbitrary: st) (auto split: sum.splits)

lemma compress_resets_append:
  "compress_loop p st cs = Inr st1 \<Longrightarrow>
   compress_resets p st (cs @ cs2) = compress_resets p st cs @ compress_resets p st1 cs2"
  by (induction cs arbitrary: st) (auto split: sum.splits)

text \<open>
  Fed one byte again and again, the encoder moves from entry to later entry and so, after
  fewer steps than the dictionary has entries, meets a key that is absent and adds it.
\<close>

lemma miss_reachable:
  assumes "in_sync p D i w dd j" and "length D < 65535"
  shows "\<exists>cs D' i' w' dd' j' os'.
           compress_loop p (enc_of D, i, os) cs = Inr (enc_of D', i', os')
           \<and> in_sync p D' i' w' dd' j' \<and> length D' = Suc (length D)"
  using assms(1)
proof (induction "length D - unat i" arbitrary: i w rule: less_induct)
  case less
  note sync = less.prems
  have nf: "length D \<noteq> 65535" using assms(2) by simp
  show ?case
  proof (cases "(i, 0) \<in> set D")
    case True
    then obtain n where n: "n < length D" and Dn: "D ! n = (i, 0)"
      by (auto simp: in_set_conv_nth)
    from sync have wf: "wf_dict D" and i: "unat i < length D" by (simp_all add: in_sync_def)
    have "i \<noteq> dms" using sync by (rule in_sync_code)
    with wf n Dn have lt: "unat i < n" by (auto simp: wf_dict_def)
    have un: "unat (of_nat n :: code) = n" using n assms(2) by (simp add: unat_of_nat_code)
    have "length D - unat (of_nat n :: code) < length D - unat i"
      using lt n by (simp add: un)
    from less.hyps [OF this in_sync_hit(2) [OF sync nf n Dn]]
    obtain cs D' i' w' dd' j' os' where
      "compress_loop p (enc_of D, of_nat n, os) cs = Inr (enc_of D', i', os')"
      and "in_sync p D' i' w' dd' j'" and "length D' = Suc (length D)" by blast
    moreover have "compress_loop p (enc_of D, i, os) (0 # cs)
        = compress_loop p (enc_of D, of_nat n, os) cs"
      by (simp add: in_sync_hit(1) [OF sync nf n Dn])
    ultimately show ?thesis by metis
  next
    case False
    have "compress_loop p (enc_of D, i, os) [0]
        = Inr (enc_of (D @ [(i, 0)]), base_code p 0, os @ code_bytes p i)"
      by (simp add: in_sync_miss(1) [OF sync nf False])
    moreover have "length (D @ [(i, 0)]) = Suc (length D)" by simp
    ultimately show ?thesis using in_sync_miss(2) [OF sync nf False] by blast
  qed
qed

lemma full_reachable:
  assumes "in_sync p D i w dd j"
  shows "\<exists>cs D' i' w' dd' j' os'.
           compress_loop p (enc_of D, i, os) cs = Inr (enc_of D', i', os')
           \<and> in_sync p D' i' w' dd' j' \<and> length D' = 65535"
  using assms
proof (induction "65535 - length D" arbitrary: D i w dd j os)
  case 0
  then have "length D \<le> 65535" by (simp add: in_sync_def wf_dict_def)
  with 0 have "length D = 65535" by simp
  moreover have "compress_loop p (enc_of D, i, os) [] = Inr (enc_of D, i, os)" by simp
  ultimately show ?case using "0.prems" by blast
next
  case (Suc m)
  then have lt: "length D < 65535" by simp
  from miss_reachable [OF Suc.prems lt, of os]
  obtain cs1 D1 i1 w1 dd1 j1 os1 where
    l1: "compress_loop p (enc_of D, i, os) cs1 = Inr (enc_of D1, i1, os1)"
    and s1: "in_sync p D1 i1 w1 dd1 j1" and len: "length D1 = Suc (length D)" by blast
  from Suc.hyps(2) len have "m = 65535 - length D1" by simp
  from Suc.hyps(1) [OF this s1, of os1]
  obtain cs2 D' i' w' dd' j' os' where
    l2: "compress_loop p (enc_of D1, i1, os1) cs2 = Inr (enc_of D', i', os')"
    and s2: "in_sync p D' i' w' dd' j'" and full: "length D' = 65535" by blast
  from compress_loop_append [OF l1, of cs2] l2
  have "compress_loop p (enc_of D, i, os) (cs1 @ cs2) = Inr (enc_of D', i', os')" by simp
  with s2 full show ?case by blast
qed

lemma reset_reachable:
  "\<exists>x. compress_resets p (enc_reset_dictionary p, dms, []) x \<noteq> []"
proof -
  let ?st = "(enc_of (dec_reset_dictionary p), base_code p 0, [])"
  from full_reachable [OF in_sync_start(2), of p 0 "[]"]
  obtain cs D' i' os' where l: "compress_loop p ?st cs = Inr (enc_of D', i', os')"
    and full: "length D' = 65535" by blast
  have "compress_resets p ?st (cs @ [0])
      = compress_resets p ?st cs @ compress_resets p (enc_of D', i', os') [0]"
    using l by (rule compress_resets_append)
  then have "compress_resets p ?st (cs @ [0]) \<noteq> []" using full by (simp add: unat_dms)
  then have "compress_resets p (enc_reset_dictionary p, dms, []) (0 # cs @ [0]) \<noteq> []"
    by (simp add: in_sync_start(1) enc_reset_dictionary_eq [symmetric])
  then show ?thesis ..
qed

section \<open>Properties\<close>

text \<open>
  C1 (round trip). On every platform and for every finite byte sequence \<open>x\<close>, the empty one
  included, \<^const>\<open>compress\<close> returns a byte stream, and \<^const>\<open>decompress\<close> on that
  stream returns, without an error, exactly \<open>x\<close>.
\<close>

theorem lzw_round_trip:
  "\<exists>ys. compress p x = Inr ys \<and> decompress p ys = Some (Inr x)"
  by (rule compress_then_decompress)

text \<open>
  C2 (resets). The encoder resets at the head of an iteration that it enters with a full
  dictionary, having written \<open>n\<close> bytes; the code it writes in that iteration is the
  match found with the old dictionary, and every later code is found with the new one.
  The decoder, one entry behind, resets exactly at the heads of the iterations that it
  enters having read \<open>n + 2\<close> bytes, for those same \<open>n\<close>: it reads that code with the old
  dictionary and every later code with the new one. At each such pair of resets the two
  hold the same entries: the keys of the encoder's map, in the order of insertion, are the
  decoder's array. The round trip holds for every input, and there are inputs that make
  the encoder reset.
\<close>

theorem reset_points_agree:
  "(\<exists>ys. compress p x = Inr ys \<and> decompress p ys = Some (Inr x)
       \<and> decompress_resets p (dec_reset_dictionary p, dms, []) 0 ys
          = map (\<lambda>(n, d). (n + 2, map fst d))
              (compress_resets p (enc_reset_dictionary p, dms, []) x))
   \<and> (\<exists>z. compress_resets p (enc_reset_dictionary p, dms, []) z \<noteq> [])"
  using resets_agree [of p x] reset_reachable [of p] by blast

text \<open>
  C3 (base alphabet), as stated, fails where \<^verbatim>\<open>char\<close> is signed: the loop of
  \<^verbatim>\<open>reset_dictionary\<close> starts at \<^verbatim>\<open>numeric_limits<char>::min()\<close>, so the byte
  \<open>0x41\<close> does not get the code \<open>0x41\<close>, and the entry \<open>0x41\<close> of the decoder does
  not hold the byte \<open>0x41\<close>.
\<close>

theorem seeding_signed_char_counterexample:
  "map_of (enc_reset_dictionary \<lparr>char_signed = True, big_endian = False\<rparr>) (dms, 0x41) \<noteq> Some 0x41
   \<and> dec_reset_dictionary \<lparr>char_signed = True, big_endian = False\<rparr> ! 0x41 \<noteq> (dms, 0x41)"
  by (simp add: enc_reset_lookup nth_dec_reset base_code_def base_char_def char_offset_def)

text \<open>
  C3 (base alphabet), amended. After \<^verbatim>\<open>reset_dictionary\<close>, at the start and at every
  later reset, the encoder and the decoder hold exactly 256 entries, one for every byte,
  each with the sentinel as prefix, and the encoder's map gives every entry of the
  decoder's array its index. The codes follow the order of the values of \<^verbatim>\<open>char\<close> on
  the platform: the byte \<open>b\<close> has the code \<open>b\<close> where \<^verbatim>\<open>char\<close> is unsigned and the
  code \<open>b - 128\<close> modulo 256 where it is signed. No key with another prefix is present.
\<close>

theorem base_alphabet_seeding:
  "length (enc_reset_dictionary p) = 256 \<and> length (dec_reset_dictionary p) = 256
   \<and> zip (dec_reset_dictionary p) (map of_nat [0..<256]) = enc_reset_dictionary p
   \<and> (n < 256 \<longrightarrow>
        dec_reset_dictionary p ! n = (dms, (if char_signed p then 128 else 0) + of_nat n))
   \<and> map_of (enc_reset_dictionary p) (dms, b)
        = Some (ucast (b - (if char_signed p then 128 else 0)))
   \<and> (j \<noteq> dms \<longrightarrow> map_of (enc_reset_dictionary p) (j, b) = None)"
proof (intro conjI impI)
  show "zip (dec_reset_dictionary p) (map of_nat [0..<256]) = enc_reset_dictionary p"
    by (simp add: enc_reset_dictionary_eq enc_of_def)
  show "length (enc_reset_dictionary p) = 256" by (simp add: enc_reset_dictionary_eq)
  show "length (dec_reset_dictionary p) = 256" by simp
  show "dec_reset_dictionary p ! n = (dms, (if char_signed p then 128 else 0) + of_nat n)"
    if "n < 256" using that by (simp add: nth_dec_reset base_char_def char_offset_def)
  show "map_of (enc_reset_dictionary p) (dms, b)
        = Some (ucast (b - (if char_signed p then 128 else 0)))"
    by (simp add: enc_reset_lookup base_code_def char_offset_def)
  show "map_of (enc_reset_dictionary p) (j, b) = None" if "j \<noteq> dms"
    using that by (simp add: enc_reset_dictionary_eq map_of_enc_of_None dec_reset_mem)
qed

text \<open>
  C3 at the entry 65 on a platform with signed \<^verbatim>\<open>char\<close>: it holds the byte 193, and the
  byte 193 has the code 65.
\<close>

theorem base_alphabet_seeding_witness:
  "(65 :: nat) < 256
   \<and> dec_reset_dictionary \<lparr>char_signed = True, big_endian = False\<rparr> ! 65 = (dms, 193)
   \<and> map_of (enc_reset_dictionary \<lparr>char_signed = True, big_endian = False\<rparr>) (dms, 193) = Some 65
   \<and> (0 :: code) \<noteq> dms
   \<and> map_of (enc_reset_dictionary \<lparr>char_signed = True, big_endian = False\<rparr>) (0, 193) = None"
  using base_alphabet_seeding [where p = "\<lparr>char_signed = True, big_endian = False\<rparr>"
      and n = 65 and b = 193 and j = 0]
  by (simp add: dms_def)

text \<open>
  C4 (invalid code). With the dictionary as it is after the capacity test of the step, the
  step for the code \<open>k\<close> throws the error of an invalid code exactly if \<open>k\<close> is greater
  than the size of the dictionary; a code up to the size is never rejected with this
  error. When the step throws it, the loop stops with it.
\<close>

theorem invalid_code_rejection:
  "(decompress_step p (d0, i, os) k = Some (Inl InvalidCode))
     = (length (if length d0 = unat dms then dec_reset_dictionary p else d0) < unat k)
   \<and> (length (if length d0 = unat dms then dec_reset_dictionary p else d0)
         < unat (bytes_code p b1 b2)
      \<longrightarrow> decompress_loop p (d0, i, os) (b1 # b2 # bs) = Some (Inl InvalidCode))"
proof (intro conjI impI)
  show "(decompress_step p (d0, i, os) k = Some (Inl InvalidCode))
     = (length (if length d0 = unat dms then dec_reset_dictionary p else d0) < unat k)"
    using decompress_step_InvalidCode [of p d0 i os k] by (simp add: reset_if_full_def)
  assume "length (if length d0 = unat dms then dec_reset_dictionary p else d0)
         < unat (bytes_code p b1 b2)"
  then have "decompress_step p (d0, i, os) (bytes_code p b1 b2) = Some (Inl InvalidCode)"
    using decompress_step_InvalidCode [of p d0 i os "bytes_code p b1 b2"]
    by (simp add: reset_if_full_def)
  then show "decompress_loop p (d0, i, os) (b1 # b2 # bs) = Some (Inl InvalidCode)"
    by (simp add: bind_result_def)
qed

text \<open>C4 on the stream of the single code 257, read with the fresh dictionary.\<close>

theorem invalid_code_rejection_witness:
  "length (if length (dec_reset_dictionary \<lparr>char_signed = True, big_endian = False\<rparr>) = unat dms
           then dec_reset_dictionary \<lparr>char_signed = True, big_endian = False\<rparr>
           else dec_reset_dictionary \<lparr>char_signed = True, big_endian = False\<rparr>)
     < unat (bytes_code \<lparr>char_signed = True, big_endian = False\<rparr> 1 1)
   \<and> decompress_loop \<lparr>char_signed = True, big_endian = False\<rparr>
        (dec_reset_dictionary \<lparr>char_signed = True, big_endian = False\<rparr>, dms, []) [1, 1]
      = Some (Inl InvalidCode)"
  using invalid_code_rejection [where p = "\<lparr>char_signed = True, big_endian = False\<rparr>"
      and ?d0.0 = "dec_reset_dictionary \<lparr>char_signed = True, big_endian = False\<rparr>"
      and i = dms and os = "[]" and ?b1.0 = 1 and ?b2.0 = 1 and bs = "[]"]
  by (simp add: bytes_code_def)

text \<open>
  C5 (corrupt stream), as stated, fails: a stream of odd length whose first code is
  invalid is rejected for that code, before the end of the input is looked at.
\<close>

theorem odd_stream_invalid_code_counterexample:
  "odd (length [255, 255, 0 :: byte])
   \<and> decompress \<lparr>char_signed = True, big_endian = False\<rparr> [255, 255, 0]
       = Some (Inl InvalidCode)
   \<and> decompress \<lparr>char_signed = True, big_endian = False\<rparr> [255, 255, 0]
       \<noteq> Some (Inl CorruptStream)"
proof -
  let ?p = "\<lparr>char_signed = True, big_endian = False\<rparr>"
  have "decompress_step ?p (dec_reset_dictionary ?p, dms, []) (bytes_code ?p 255 255)
      = Some (Inl InvalidCode)"
    by (simp add: decompress_step_InvalidCode reset_if_full_def bytes_code_def unat_dms)
  then show ?thesis by (simp add: decompress_def bind_result_def)
qed

text \<open>
  C5 (corrupt stream), amended. A stream of complete codes followed by one more byte is
  rejected as corrupt when the complete codes are decoded without an error; when they are
  not, the stream ends as the complete codes alone do, with the earlier error. So a stream
  of odd length is never decoded successfully. A stream of complete codes only is never
  rejected as corrupt.
\<close>

theorem corrupt_stream_rejection:
  "(even (length cs) \<and> decompress p cs = Some (Inr out)
      \<longrightarrow> decompress p (cs @ [b]) = Some (Inl CorruptStream))
   \<and> (even (length cs) \<and> (\<forall>out. decompress p cs \<noteq> Some (Inr out))
      \<longrightarrow> decompress p (cs @ [b]) = decompress p cs)
   \<and> (even (length cs) \<longrightarrow> decompress p cs \<noteq> Some (Inl CorruptStream))"
proof (intro conjI impI)
  show "decompress p (cs @ [b]) = Some (Inl CorruptStream)"
    if "even (length cs) \<and> decompress p cs = Some (Inr out)"
    using that by (simp add: decompress_trailing bind_result_def)
  show "decompress p (cs @ [b]) = decompress p cs"
    if "even (length cs) \<and> (\<forall>out. decompress p cs \<noteq> Some (Inr out))"
    using that by (auto simp: decompress_trailing bind_result_def split: option.splits sum.splits)
  show "decompress p cs \<noteq> Some (Inl CorruptStream)" if "even (length cs)"
    using that by (rule decompress_even)
qed

text \<open>
  C5 on the code of the byte 65 followed by one more byte, and on the invalid code 65535
  followed by one more byte.
\<close>

theorem corrupt_stream_rejection_witness:
  "even (length [193, 0 :: byte])
   \<and> decompress \<lparr>char_signed = True, big_endian = False\<rparr> [193, 0] = Some (Inr [65])
   \<and> decompress \<lparr>char_signed = True, big_endian = False\<rparr> ([193, 0] @ [7])
       = Some (Inl CorruptStream)
   \<and> decompress \<lparr>char_signed = True, big_endian = False\<rparr> [193, 0] \<noteq> Some (Inl CorruptStream)
   \<and> even (length [255, 255 :: byte])
   \<and> decompress \<lparr>char_signed = True, big_endian = False\<rparr> [255, 255] = Some (Inl InvalidCode)
   \<and> decompress \<lparr>char_signed = True, big_endian = False\<rparr> ([255, 255] @ [7])
       = Some (Inl InvalidCode)"
proof -
  let ?p = "\<lparr>char_signed = True, big_endian = False\<rparr>"
  have "decompress ?p (code_bytes ?p (base_code ?p 65)) = Some (Inr [65])"
    by (rule decompress_single)
  then have d: "decompress ?p [193, 0] = Some (Inr [65])"
    by (simp add: code_bytes_def base_code_def char_offset_def)
  have "decompress_step ?p (dec_reset_dictionary ?p, dms, []) (bytes_code ?p 255 255)
      = Some (Inl InvalidCode)"
    by (simp add: decompress_step_InvalidCode reset_if_full_def bytes_code_def unat_dms)
  then have e: "decompress ?p [255, 255] = Some (Inl InvalidCode)"
    by (simp add: decompress_def bind_result_def)
  from d corrupt_stream_rejection [of "[193, 0]" ?p "[65]" 7]
  have "decompress ?p ([193, 0] @ [7]) = Some (Inl CorruptStream)
      \<and> decompress ?p [193, 0] \<noteq> Some (Inl CorruptStream)" by simp
  moreover from e corrupt_stream_rejection [of "[255, 255]" ?p "[]" 7]
  have "decompress ?p ([255, 255] @ [7]) = Some (Inl InvalidCode)" by simp
  ultimately show ?thesis using d e by simp
qed

text \<open>
  C6 (empty input). The encoder writes nothing for the empty input, and the decoder
  returns the empty output, without an error, for the empty stream.
\<close>

theorem empty_input_empty_output:
  "compress p [] = Inr [] \<and> decompress p [] = Some (Inr [])"
  by (simp add: compress_def compress_flush_def decompress_def bind_result_def)

text \<open>
  C7 (single byte). For the input of the one byte \<open>0x41\<close> the encoder writes exactly one
  code, two bytes, and that code, read back from the two bytes, is the code that
  \<^verbatim>\<open>reset_dictionary\<close> has stored under the key of the sentinel and \<open>0x41\<close>: 65 where
  \<^verbatim>\<open>char\<close> is unsigned and 193 where it is signed, with the low byte first unless the
  platform is big-endian.
\<close>

theorem single_byte_code:
  "map_of (enc_reset_dictionary p) (dms, 0x41) = Some (if char_signed p then 193 else 65)
   \<and> compress p [0x41] =
         Inr (if big_endian p then [0, if char_signed p then 193 else 65]
              else [if char_signed p then 193 else 65, 0])
   \<and> (\<exists>b1 b2. compress p [0x41] = Inr [b1, b2]
         \<and> map_of (enc_reset_dictionary p) (dms, 0x41) = Some (bytes_code p b1 b2))"
proof -
  have k: "base_code p 0x41 = (if char_signed p then 193 else 65)"
    by (simp add: base_code_def char_offset_def)
  have m: "map_of (enc_reset_dictionary p) (dms, 0x41) = Some (if char_signed p then 193 else 65)"
    using enc_reset_lookup [of p "0x41"] by (simp only: k)
  have c: "compress p [0x41] =
         Inr (if big_endian p then [0, if char_signed p then 193 else 65]
              else [if char_signed p then 193 else 65, 0])"
    using compress_single [of p "0x41"] by (simp add: k code_bytes_def)
  obtain b1 b2 where b: "code_bytes p (base_code p 0x41) = [b1, b2]"
    by (cases "big_endian p") (simp_all add: code_bytes_def)
  then have "bytes_code p b1 b2 = base_code p 0x41" by (rule bytes_code_code_bytes)
  with b compress_single [of p "0x41"] enc_reset_lookup [of p "0x41"]
  have "\<exists>b1 b2. compress p [0x41] = Inr [b1, b2]
         \<and> map_of (enc_reset_dictionary p) (dms, 0x41) = Some (bytes_code p b1 b2)"
    by auto
  with m c show ?thesis by blast
qed

text \<open>
  C8 (self reference), as stated, fails where the previous code has no string with a first
  byte. A stream whose first code is 256 meets the size of the fresh dictionary while the
  previous code is still the sentinel: the step appends nothing and takes \<^verbatim>\<open>front()\<close>
  of an empty string. After a reset a previous code left over from the full dictionary
  need not be an entry of the new one: then \<^verbatim>\<open>at\<close> throws, and again nothing is
  appended or written.
\<close>

theorem self_reference_without_string_counterexample:
  "unat (256 :: code) = length (dec_reset_dictionary \<lparr>char_signed = True, big_endian = False\<rparr>)
   \<and> decompress_step \<lparr>char_signed = True, big_endian = False\<rparr>
        (dec_reset_dictionary \<lparr>char_signed = True, big_endian = False\<rparr>, dms, [7]) 256
       = Some (Inl EmptyFront)
   \<and> decompress \<lparr>char_signed = True, big_endian = False\<rparr> [0, 1] = Some (Inl EmptyFront)
   \<and> decompress_step \<lparr>char_signed = True, big_endian = False\<rparr>
        (replicate 65535 (dms, 0), 256, []) 256
       = Some (Inl OutOfRange)"
proof -
  let ?p = "\<lparr>char_signed = True, big_endian = False\<rparr>"
  have a: "decompress_step ?p (dec_reset_dictionary ?p, dms, [7]) 256 = Some (Inl EmptyFront)"
    by (simp add: decompress_step_EmptyFront reset_if_full_def unat_dms)
  have b: "decompress ?p [0, 1] = Some (Inl EmptyFront)"
    by (simp add: decompress_EmptyFront bytes_code_def)
  have "rebuild_loop (dec_reset_dictionary ?p) 256 [] = Some (Inl OutOfRange)"
    by (subst rebuild_loop.simps) (simp add: dms_def)
  then have "rebuild_string (dec_reset_dictionary ?p) 256 = Some (Inl OutOfRange)"
    by (simp add: rebuild_string_def)
  then have c: "decompress_step ?p (replicate 65535 (dms, 0), 256, []) 256 = Some (Inl OutOfRange)"
    by (simp add: decompress_step_def unat_dms bind_result_def)
  from a b c show ?thesis by simp
qed

text \<open>
  C8 (self reference), amended. Let \<open>d\<close> be the dictionary after the capacity test, let
  the code \<open>k\<close> read be the size of \<open>d\<close>, and let \<^verbatim>\<open>rebuild_string\<close> return for the
  previous code \<open>i\<close> a string with a first byte \<open>b\<close>. Then the step appends the entry with
  prefix \<open>i\<close> and byte \<open>b\<close>, the string it then rebuilds for \<open>k\<close> is the string of \<open>i\<close>
  followed by \<open>b\<close>, and that is what it writes.
\<close>

theorem self_reference_case:
  assumes "d = (if length d0 = unat dms then dec_reset_dictionary p else d0)"
    and "unat k = length d"
    and "rebuild_string d i = Some (Inr (b # s))"
  shows "rebuild_string (d @ [(i, b)]) k = Some (Inr ((b # s) @ [b]))
       \<and> decompress_step p (d0, i, os) k = Some (Inr (d @ [(i, b)], k, os @ (b # s) @ [b]))"
proof -
  have rf: "reset_if_full p d0 = d" by (simp add: assms(1) reset_if_full_def)
  have "length d \<noteq> 65535" by (simp add: assms(1) unat_dms)
  then have k: "k \<noteq> dms" using assms(2) by (auto simp: unat_dms)
  let ?D = "d @ [(i, b)]"
  from assms(3) have "spells d i (b # s)" by (rule rebuild_string_Inr)
  then have "spells ?D i (b # s)" by (rule spells_append)
  then have "spells ?D (fst (?D ! unat k)) (b # s)" by (simp add: assms(2))
  with k have "spells ?D k ((b # s) @ [snd (?D ! unat k)])"
    by (intro spells_entry) (simp_all add: assms(2))
  then have "spells ?D k ((b # s) @ [b])" by (simp add: assms(2))
  then have r: "rebuild_string ?D k = Some (Inr ((b # s) @ [b]))" by (rule spells_rebuild_string)
  from decompress_step_fresh [OF rf assms(2) assms(3) r [simplified]] r
  show ?thesis by simp
qed

text \<open>
  C8 on the fresh dictionary of a platform with signed \<^verbatim>\<open>char\<close>, after the code 193 of
  the byte 65, for the code 256.
\<close>

theorem self_reference_case_witness:
  "unat (256 :: code) = length (dec_reset_dictionary \<lparr>char_signed = True, big_endian = False\<rparr>)
   \<and> rebuild_string (dec_reset_dictionary \<lparr>char_signed = True, big_endian = False\<rparr>) 193
       = Some (Inr [65])
   \<and> rebuild_string (dec_reset_dictionary \<lparr>char_signed = True, big_endian = False\<rparr> @ [(193, 65)]) 256
       = Some (Inr [65, 65])
   \<and> decompress_step \<lparr>char_signed = True, big_endian = False\<rparr>
        (dec_reset_dictionary \<lparr>char_signed = True, big_endian = False\<rparr>, 193, []) 256
       = Some (Inr (dec_reset_dictionary \<lparr>char_signed = True, big_endian = False\<rparr> @ [(193, 65)],
                    256, [65, 65]))"
proof -
  let ?p = "\<lparr>char_signed = True, big_endian = False\<rparr>"
  have h1: "dec_reset_dictionary ?p
      = (if length (dec_reset_dictionary ?p) = unat dms then dec_reset_dictionary ?p
         else dec_reset_dictionary ?p)" by simp
  have h2: "unat (256 :: code) = length (dec_reset_dictionary ?p)" by simp
  have "rebuild_string (dec_reset_dictionary ?p) (base_code ?p 65) = Some (Inr [65])"
    using spells_base_code by (rule spells_rebuild_string)
  then have h3: "rebuild_string (dec_reset_dictionary ?p) 193 = Some (Inr [65])"
    by (simp add: base_code_def char_offset_def)
  from self_reference_case [OF h1 h2 h3, of "[]"] h2 h3 show ?thesis by simp
qed

text \<open>
  C9 (final flush). After the loop the encoder leaves the output as it is exactly if the
  pending code is the sentinel; otherwise it appends exactly two bytes, the low and the
  high byte of the pending code in the order of the platform, which read back as that
  code. For the empty input nothing is written; for every other input the loop ends
  without an error with a pending code that is not the sentinel, and the output is what
  the loop has written followed by the two bytes of that one code.
\<close>

theorem final_flush_code:
  "(compress_flush p (d, i, os) = os) = (i = dms)
   \<and> (i \<noteq> dms \<longrightarrow>
        (\<exists>b1 b2. compress_flush p (d, i, os) = os @ [b1, b2] \<and> bytes_code p b1 b2 = i
           \<and> [b1, b2] = (if big_endian p then [ucast (drop_bit 8 i), ucast i]
                          else [ucast i, ucast (drop_bit 8 i)])))
   \<and> compress p [] = Inr []
   \<and> (x \<noteq> [] \<longrightarrow>
        (\<exists>d' i' os' b1 b2.
           compress_loop p (enc_reset_dictionary p, dms, []) x = Inr (d', i', os')
           \<and> i' \<noteq> dms \<and> compress p x = Inr (os' @ [b1, b2]) \<and> bytes_code p b1 b2 = i'
           \<and> [b1, b2] = (if big_endian p then [ucast (drop_bit 8 i'), ucast i']
                          else [ucast i', ucast (drop_bit 8 i')])))"
proof -
  have two: "\<exists>b1 b2. code_bytes p j = [b1, b2] \<and> bytes_code p b1 b2 = j
           \<and> [b1, b2] = (if big_endian p then [ucast (drop_bit 8 j), ucast j]
                          else [ucast j, ucast (drop_bit 8 j)])" for j
  proof -
    obtain b1 b2 where b: "code_bytes p j = [b1, b2]"
      by (cases "big_endian p") (simp_all add: code_bytes_def)
    moreover from b have "bytes_code p b1 b2 = j" by (rule bytes_code_code_bytes)
    moreover from b have "[b1, b2] = (if big_endian p then [ucast (drop_bit 8 j), ucast j]
                          else [ucast j, ucast (drop_bit 8 j)])"
      by (simp add: code_bytes_def)
    ultimately show ?thesis by blast
  qed
  have c1: "(compress_flush p (d, i, os) = os) = (i = dms)"
    using two [of i] by (auto simp: compress_flush_def)
  have c2: "\<exists>b1 b2. compress_flush p (d, i, os) = os @ [b1, b2] \<and> bytes_code p b1 b2 = i
           \<and> [b1, b2] = (if big_endian p then [ucast (drop_bit 8 i), ucast i]
                          else [ucast i, ucast (drop_bit 8 i)])" if "i \<noteq> dms"
    using two [of i] that by (auto simp: compress_flush_def)
  have c3: "compress p [] = Inr []" by (simp add: compress_def compress_flush_def)
  have c4: "\<exists>d' i' os' b1 b2.
           compress_loop p (enc_reset_dictionary p, dms, []) x = Inr (d', i', os')
           \<and> i' \<noteq> dms \<and> compress p x = Inr (os' @ [b1, b2]) \<and> bytes_code p b1 b2 = i'
           \<and> [b1, b2] = (if big_endian p then [ucast (drop_bit 8 i'), ucast i']
                          else [ucast i', ucast (drop_bit 8 i')])" if "x \<noteq> []"
  proof -
    from that obtain c cs where x: "x = c # cs" by (cases x) auto
    from compress_loop_nonempty [of p c cs] obtain d' i' os' where
      l: "compress_loop p (enc_reset_dictionary p, dms, []) x = Inr (d', i', os')"
      and i': "i' \<noteq> dms" unfolding x by blast
    from two [of i'] obtain b1 b2 where b: "code_bytes p i' = [b1, b2]"
      and r: "bytes_code p b1 b2 = i'"
      and v: "[b1, b2] = (if big_endian p then [ucast (drop_bit 8 i'), ucast i']
                          else [ucast i', ucast (drop_bit 8 i')])" by blast
    from l i' b have "compress p x = Inr (os' @ [b1, b2])"
      by (simp add: compress_def compress_flush_def)
    with l i' r v show ?thesis by blast
  qed
  from c1 c2 c3 c4 show ?thesis by blast
qed

text \<open>
  C9 on the input of the one byte \<open>0x41\<close> on a little-endian platform with signed
  \<^verbatim>\<open>char\<close>: the loop writes nothing and leaves the code 193, and the output is the two
  bytes 193 and 0.
\<close>

theorem final_flush_code_witness:
  "[0x41 :: byte] \<noteq> [] \<and> (193 :: code) \<noteq> dms
   \<and> compress_loop \<lparr>char_signed = True, big_endian = False\<rparr>
        (enc_reset_dictionary \<lparr>char_signed = True, big_endian = False\<rparr>, dms, []) [0x41]
       = Inr (enc_reset_dictionary \<lparr>char_signed = True, big_endian = False\<rparr>, 193, [])
   \<and> compress \<lparr>char_signed = True, big_endian = False\<rparr> [0x41] = Inr [193, 0]
   \<and> compress_flush \<lparr>char_signed = True, big_endian = False\<rparr> ([], 193, [5]) = [5, 193, 0]
   \<and> bytes_code \<lparr>char_signed = True, big_endian = False\<rparr> 193 0 = 193"
proof -
  let ?p = "\<lparr>char_signed = True, big_endian = False\<rparr>"
  have n: "(193 :: code) \<noteq> dms" by (simp add: dms_def)
  have k: "base_code ?p 0x41 = 193" by (simp add: base_code_def char_offset_def)
  have l: "compress_loop ?p (enc_reset_dictionary ?p, dms, []) [0x41]
       = Inr (enc_reset_dictionary ?p, 193, [])"
    using in_sync_start(1) [of ?p "0x41"] by (simp add: k)
  from final_flush_code [where p = ?p and x = "[0x41]" and i = 193 and d = "[]" and os = "[5]"] n
  obtain b1 b2 where f: "compress_flush ?p ([], 193, [5]) = [5] @ [b1, b2]"
    and r: "bytes_code ?p b1 b2 = 193"
    and v: "[b1, b2] = [ucast (193 :: code), ucast (drop_bit 8 (193 :: code))]"
    by auto
  from v have b: "b1 = 193" "b2 = 0" by simp_all
  from final_flush_code [where p = ?p and x = "[0x41]" and i = 193 and d = "[]" and os = "[5]"] l
  have c: "compress ?p [0x41] = Inr [193, 0]" by auto
  from n l c f r b show ?thesis by simp
qed

text \<open>
  C10 (front of an empty string). The size test lets a code equal to the size pass while
  the previous code is still the sentinel; the step then takes \<^verbatim>\<open>front()\<close> of the empty
  string rebuilt for the sentinel. In a dictionary within the capacity this is the only
  way a step comes to \<^verbatim>\<open>front()\<close> of an empty string, and a whole stream does so
  exactly if its first code is 256. No stream written by the encoder does.
\<close>

theorem front_of_empty_string:
  "(decompress p bs = Some (Inl EmptyFront))
     = (\<exists>b1 b2 rest. bs = b1 # b2 # rest \<and> bytes_code p b1 b2 = 256)
   \<and> decompress p (code_bytes p 256 @ bs) = Some (Inl EmptyFront)
   \<and> (length d0 \<le> 65535 \<longrightarrow>
        (decompress_step p (d0, i, os) k = Some (Inl EmptyFront))
          = (unat k = length (if length d0 = unat dms then dec_reset_dictionary p else d0)
             \<and> i = dms))
   \<and> (\<exists>ys. compress p x = Inr ys \<and> decompress p ys \<noteq> Some (Inl EmptyFront))"
proof (intro conjI impI)
  show "(decompress p bs = Some (Inl EmptyFront))
     = (\<exists>b1 b2 rest. bs = b1 # b2 # rest \<and> bytes_code p b1 b2 = 256)"
    by (rule decompress_EmptyFront)
  obtain b1 b2 where b: "code_bytes p 256 = [b1, b2]"
    by (cases "big_endian p") (simp_all add: code_bytes_def)
  then have "bytes_code p b1 b2 = 256" by (rule bytes_code_code_bytes)
  then show "decompress p (code_bytes p 256 @ bs) = Some (Inl EmptyFront)"
    unfolding decompress_EmptyFront b by simp
  show "(decompress_step p (d0, i, os) k = Some (Inl EmptyFront))
          = (unat k = length (if length d0 = unat dms then dec_reset_dictionary p else d0)
             \<and> i = dms)" if "length d0 \<le> 65535"
    using decompress_step_EmptyFront [OF that, of p i os k] by (simp add: reset_if_full_def)
  from compress_then_decompress [of p x]
  show "\<exists>ys. compress p x = Inr ys \<and> decompress p ys \<noteq> Some (Inl EmptyFront)" by auto
qed

text \<open>C10 on the fresh dictionary, for the code 256 as the first code.\<close>

theorem front_of_empty_string_witness:
  "length (dec_reset_dictionary \<lparr>char_signed = True, big_endian = False\<rparr>) \<le> 65535
   \<and> decompress_step \<lparr>char_signed = True, big_endian = False\<rparr>
        (dec_reset_dictionary \<lparr>char_signed = True, big_endian = False\<rparr>, dms, []) 256
       = Some (Inl EmptyFront)"
  using front_of_empty_string [where p = "\<lparr>char_signed = True, big_endian = False\<rparr>"
      and ?d0.0 = "dec_reset_dictionary \<lparr>char_signed = True, big_endian = False\<rparr>"
      and i = dms and k = 256]
  by (simp add: unat_dms)

end
